theory Spec2Isabelle
  imports Main "HOL-Library.Multiset"
begin

section \<open>Blackjack: cards, deck, hand evaluation and the round\<close>

text \<open>
  A shallow embedding of \<^verbatim>\<open>blackjack.py\<close>. Python integers are \<open>int\<close>, strings are
  \<open>string\<close>, every exception is a value of \<open>error\<close> and a function that can raise
  returns \<open>error + 'a\<close>. Lists that the program mutates in place and passes around (the
  deck) live in an explicit store of list objects, so that rebinding a name and mutating
  an object stay different things.
\<close>

subsection \<open>Errors\<close>

datatype error =
    KeyError string   \<comment> \<open>a dictionary lookup with a missing key (the key)\<close>
  | IndexError        \<comment> \<open>\<^verbatim>\<open>pop\<close> from an empty list, \<^verbatim>\<open>hand[0]\<close> of an empty hand\<close>
  | EOFError          \<comment> \<open>\<^verbatim>\<open>input()\<close> with no input left\<close>
  | SystemExit        \<comment> \<open>\<^verbatim>\<open>quit()\<close>\<close>

definition and_then :: "error + 'a \<Rightarrow> ('a \<Rightarrow> error + 'b) \<Rightarrow> error + 'b" where
  "and_then r f = (case r of Inl e \<Rightarrow> Inl e | Inr x \<Rightarrow> f x)"

subsection \<open>Cards\<close>

text \<open>\<^verbatim>\<open>Card = namedtuple('Card', ['suit', 'rank'])\<close>: an immutable pair of two strings.\<close>

datatype card = Card (suit: string) (rank: string)

text \<open>
  The two local lists of \<^verbatim>\<open>create_deck\<close>; the thirteen ranks are one list, written in
  three parts.
\<close>

definition suits :: "string list" where
  "suits = [''Hearts'', ''Diamonds'', ''Clubs'', ''Spades'']"

definition ranks :: "string list" where
  "ranks = [''2'', ''3'', ''4'', ''5'', ''6''] @ [''7'', ''8'', ''9'', ''10''] @ [''J'', ''Q'', ''K'', ''A'']"

text \<open>The list comprehension of \<^verbatim>\<open>create_deck\<close>: suits outside, ranks inside.\<close>

definition deck_cards :: "card list" where
  "deck_cards = concat (map (\<lambda>s. map (\<lambda>r. Card s r) ranks) suits)"

subsection \<open>Hand evaluation\<close>

text \<open>The dictionary \<^verbatim>\<open>values\<close> of \<^verbatim>\<open>calculate_hand\<close>.\<close>

definition card_values :: "string \<rightharpoonup> int" where
  "card_values = map_of
     [(''2'', 2), (''3'', 3), (''4'', 4), (''5'', 5), (''6'', 6), (''7'', 7), (''8'', 8),
      (''9'', 9), (''10'', 10), (''J'', 10), (''Q'', 10), (''K'', 10), (''A'', 11)]"

text \<open>\<^verbatim>\<open>sum(1 for card in hand if card.rank == 'A')\<close>, from the accumulator 0.\<close>

fun count_aces :: "int \<Rightarrow> card list \<Rightarrow> int" where
  "count_aces acc [] = acc"
| "count_aces acc (c # hand) = count_aces (if rank c = ''A'' then acc + 1 else acc) hand"

text \<open>
  \<^verbatim>\<open>sum(values[card.rank] for card in hand)\<close>, from the accumulator 0: the first card
  whose rank is not a key of the dictionary raises KeyError.
\<close>

fun sum_values :: "int \<Rightarrow> card list \<Rightarrow> error + int" where
  "sum_values acc [] = Inr acc"
| "sum_values acc (c # hand) =
     (case card_values (rank c) of
        None \<Rightarrow> Inl (KeyError (rank c))
      | Some v \<Rightarrow> sum_values (acc + v) hand)"

text \<open>
  \<^verbatim>\<open>while total > 21 and num_aces: total -= 10; num_aces -= 1\<close>. An integer is true when
  it is not zero; \<open>tot\<close> is the variable \<^verbatim>\<open>total\<close>. The total falls by 10 in every iteration, which bounds the loop.
\<close>

function ace_loop :: "int \<Rightarrow> int \<Rightarrow> int" where
  "ace_loop tot num_aces =
     (if tot > 21 \<and> num_aces \<noteq> 0 then ace_loop (tot - 10) (num_aces - 1) else tot)"
  by pat_completeness auto
termination
  by (relation "measure (\<lambda>(tot, num_aces). nat (tot - 21))") auto

declare ace_loop.simps [simp del]

definition calculate_hand :: "card list \<Rightarrow> error + int" where
  "calculate_hand hand =
     (let num_aces = count_aces 0 hand in
      case sum_values 0 hand of
        Inl e \<Rightarrow> Inl e
      | Inr tot \<Rightarrow> Inr (ace_loop tot num_aces))"

subsection \<open>The card values in words\<close>

text \<open>
  The value of a rank as the rules state it: 11 for an Ace, 10 for Jack, Queen and King,
  and the number itself for the ranks written as decimal numbers. The dictionary of
  \<^verbatim>\<open>calculate_hand\<close> is compared with it below.
\<close>

definition decimal :: "string \<Rightarrow> int" where
  "decimal s = foldl (\<lambda>n ch. 10 * n + (int (of_char ch) - 48)) 0 s"

definition face_value :: "string \<Rightarrow> int" where
  "face_value r =
     (if r = ''A'' then 11
      else if r = ''J'' \<or> r = ''Q'' \<or> r = ''K'' then 10
      else decimal r)"

definition face_sum :: "card list \<Rightarrow> int" where
  "face_sum hand = sum_list (map (\<lambda>c. face_value (rank c)) hand)"

definition num_aces_in :: "card list \<Rightarrow> nat" where
  "num_aces_in hand = length (filter (\<lambda>c. rank c = ''A'') hand)"

text \<open>A card the deck can hold: its rank is one of the thirteen.\<close>

definition valid_card :: "card \<Rightarrow> bool" where
  "valid_card c = (rank c \<in> set ranks)"

subsection \<open>Facts about hand evaluation\<close>

lemma card_values_face:
  "r \<in> set ranks \<Longrightarrow> card_values r = Some (face_value r)"
  unfolding ranks_def
  by (elim disjE | simp add: card_values_def face_value_def decimal_def)+

lemma card_values_dom: "card_values r = Some v \<Longrightarrow> r \<in> set ranks"
  by (auto simp: ranks_def card_values_def split: if_splits)

lemma face_value_bounds:
  "r \<in> set ranks \<Longrightarrow>
     2 \<le> face_value r \<and> face_value r \<le> 11 \<and> (r \<noteq> ''A'' \<longrightarrow> face_value r \<le> 10)"
  unfolding ranks_def by (elim disjE | simp add: face_value_def decimal_def)+

lemma face_value_ace: "face_value ''A'' = 11"
  by (simp add: face_value_def)

lemma sum_values_valid:
  "list_all valid_card hand \<Longrightarrow> sum_values acc hand = Inr (acc + face_sum hand)"
  by (induction hand arbitrary: acc)
     (simp_all add: face_sum_def card_values_face valid_card_def)

lemma sum_values_Inr: "sum_values acc hand = Inr t \<Longrightarrow> list_all valid_card hand"
proof (induction hand arbitrary: acc)
  case Nil
  show ?case by simp
next
  case (Cons c hand)
  from Cons.prems obtain v where v: "card_values (rank c) = Some v"
    by (cases "card_values (rank c)") simp_all
  with Cons.prems have "sum_values (acc + v) hand = Inr t" by simp
  from Cons.IH [OF this] card_values_dom [OF v] show ?case
    by (simp add: valid_card_def)
qed

lemma count_aces_eq: "count_aces acc hand = acc + int (num_aces_in hand)"
  by (induction hand arbitrary: acc) (simp_all add: num_aces_in_def)

text \<open>
  What the loop over the Aces computes: it takes 10 off \<open>k\<close> times, at most once per Ace,
  goes on while the total is above 21 and an Ace is left, and takes nothing off a total
  that is not above 21.
\<close>

lemma ace_loop_demotions:
  "\<exists>k. ace_loop t (int n) = t - 10 * int k \<and> k \<le> n
     \<and> (21 < t - 10 * int k \<longrightarrow> k = n)
     \<and> (0 < k \<longrightarrow> 21 < t - 10 * int k + 10)"
proof (induction n arbitrary: t)
  case 0
  show ?case by (rule exI [of _ 0]) (simp add: ace_loop.simps)
next
  case (Suc n)
  show ?case
  proof (cases "21 < t")
    case False
    then show ?thesis by (intro exI [of _ 0]) (simp add: ace_loop.simps)
  next
    case True
    from Suc.IH [of "t - 10"] obtain k where k:
      "ace_loop (t - 10) (int n) = t - 10 - 10 * int k" "k \<le> n"
      "21 < t - 10 - 10 * int k \<longrightarrow> k = n"
      "0 < k \<longrightarrow> 21 < t - 10 - 10 * int k + 10" by blast
    have "ace_loop t (int (Suc n)) = ace_loop (t - 10) (int n)"
      using True by (subst ace_loop.simps) simp
    with k True show ?thesis
      by (intro exI [of _ "Suc k"]) (cases k; simp)
  qed
qed

lemma calculate_hand_valid:
  assumes "list_all valid_card hand"
  shows "calculate_hand hand = Inr (ace_loop (face_sum hand) (int (num_aces_in hand)))"
  using sum_values_valid [OF assms, of 0]
  by (simp add: calculate_hand_def count_aces_eq)

lemma calculate_hand_Inr: "calculate_hand hand = Inr t \<Longrightarrow> list_all valid_card hand"
  by (auto simp: calculate_hand_def split: sum.splits dest: sum_values_Inr)

text \<open>With every Ace counted as 1, a card still counts at least 1.\<close>

lemma low_total_length:
  "list_all valid_card hand \<Longrightarrow>
     int (length hand) \<le> face_sum hand - 10 * int (num_aces_in hand)"
proof (induction hand)
  case Nil
  show ?case by (simp add: face_sum_def num_aces_in_def)
next
  case (Cons c hand)
  then have r: "rank c \<in> set ranks" and IH:
    "int (length hand) \<le> face_sum hand - 10 * int (num_aces_in hand)"
    by (simp_all add: valid_card_def)
  from face_value_bounds [OF r] IH show ?case
    by (cases "rank c = ''A''") (simp_all add: face_sum_def num_aces_in_def face_value_ace)
qed

lemma calculate_hand_length:
  assumes "calculate_hand hand = Inr t"
  shows "int (length hand) \<le> t"
proof -
  have v: "list_all valid_card hand" using assms by (rule calculate_hand_Inr)
  obtain k where k: "ace_loop (face_sum hand) (int (num_aces_in hand)) = face_sum hand - 10 * int k"
    "k \<le> num_aces_in hand"
    using ace_loop_demotions [of "face_sum hand" "num_aces_in hand"] by blast
  from calculate_hand_valid [OF v] assms k(1) have "t = face_sum hand - 10 * int k" by simp
  with k(2) low_total_length [OF v] show ?thesis by simp
qed

subsection \<open>The store, the random generator and the console\<close>

text \<open>
  A list object is a cell of the store; a name holds the address of a cell. \<open>fresh\<close> is
  the next unused address. The generator of the \<^verbatim>\<open>random\<close> module is a sequence of
  draws, read from its head; the console is the sequence of everything printed.
  The two files are what they hold, or \<open>None\<close> when the file does not exist:
  \<^verbatim>\<open>game_stats.json\<close> holds the six counters, \<^verbatim>\<open>welcome.txt\<close> a text.
\<close>

type_synonym addr = nat

datatype symbol = Heart | Diamond | Club | Spade

text \<open>
  What the program prints, one constructor per \<^verbatim>\<open>print\<close> (or prompt of \<^verbatim>\<open>input\<close>) of
  the source, with the values it formats into the line.
\<close>

datatype printed =
    Blank                              \<comment> \<open>\<^verbatim>\<open>print()\<close>\<close>
  | PlayerHand int                     \<comment> \<open>\<^verbatim>\<open>Player's hand (n):\<close>\<close>
  | DealerHand int                     \<comment> \<open>\<^verbatim>\<open>Dealer's hand (n):\<close>\<close>
  | DealerHandHidden                   \<comment> \<open>\<^verbatim>\<open>Dealer's hand (X):\<close>\<close>
  | ShowCard "symbol option" string    \<comment> \<open>\<^verbatim>\<open>[sr]\<close>: the suit's symbol (or None) and the rank\<close>
  | HiddenCard                         \<comment> \<open>\<^verbatim>\<open>[X]\<close>\<close>
  | PromptHitStand                     \<comment> \<open>\<^verbatim>\<open>Enter [H] to hit or [S] to stand: \<close>\<close>
  | PromptPlayAgain                    \<comment> \<open>\<^verbatim>\<open>Enter [P] to play again or [Q] to quit: \<close>\<close>
  | InvalidInput                       \<comment> \<open>\<^verbatim>\<open>Invalid input!\<close> and an empty line\<close>
  | TakesCard                          \<comment> \<open>\<^verbatim>\<open>The dealer takes a new card!\<close> and an empty line\<close>
  | ResultPlayerBust                   \<comment> \<open>\<^verbatim>\<open>RESULT: Bust! You lose.\<close>\<close>
  | ResultDealerBust                   \<comment> \<open>\<^verbatim>\<open>RESULT: The dealer bust. You win!\<close>\<close>
  | Scores int int                     \<comment> \<open>\<^verbatim>\<open>SCORES: Player (p), Dealer (d)\<close>\<close>
  | ResultTie                          \<comment> \<open>\<^verbatim>\<open>RESULT: It's a tie!\<close>\<close>
  | ResultWin                          \<comment> \<open>\<^verbatim>\<open>RESULT: You win!\<close>\<close>
  | ResultLose                         \<comment> \<open>\<^verbatim>\<open>RESULT: You lose! The dealer wins.\<close>\<close>
  | Welcome "string option"            \<comment> \<open>the text of \<^verbatim>\<open>welcome.txt\<close>, or the line that it was not found\<close>
  | SavedStats int int int int int int \<comment> \<open>the block of \<^verbatim>\<open>display_game_stats\<close>, with the six counters\<close>
  | LetsPlay                           \<comment> \<open>\<^verbatim>\<open>LET'S PLAY!\<close> and an empty line\<close>

text \<open>The dictionary of the statistics, with the six keys the program uses.\<close>

record stats =
  total_games :: int
  total_wins :: int
  total_losses :: int
  total_ties :: int
  player_busts :: int
  dealer_busts :: int

record world =
  heap :: "addr \<Rightarrow> card list"
  fresh :: addr
  rng :: "nat \<Rightarrow> nat"
  console :: "printed list"
  stats_file :: "stats option"
  welcome_file :: "string option"

definition emit :: "printed \<Rightarrow> world \<Rightarrow> world" where
  "emit x w = w\<lparr>console := console w @ [x]\<rparr>"

definition new_list :: "card list \<Rightarrow> world \<Rightarrow> addr \<times> world" where
  "new_list xs w =
     (fresh w, w\<lparr>heap := (heap w)(fresh w := xs), fresh := Suc (fresh w)\<rparr>)"

text \<open>\<^verbatim>\<open>deck.pop()\<close>: removes and returns the last element; IndexError on an empty list.\<close>

definition list_pop :: "addr \<Rightarrow> world \<Rightarrow> error + (card \<times> world)" where
  "list_pop a w =
     (case heap w a of
        [] \<Rightarrow> Inl IndexError
      | x # xs \<Rightarrow>
          Inr (last (x # xs), w\<lparr>heap := (heap w)(a := butlast (x # xs))\<rparr>))"

subsection \<open>The standard library's shuffle\<close>

text \<open>
  \<^verbatim>\<open>random.shuffle\<close> belongs to Python's standard library, not to this repository. It is
  modelled after CPython's \<^verbatim>\<open>Lib/random.py\<close>:
  \<^verbatim>\<open>for i in reversed(range(1, len(x))): j = randbelow(i + 1); x[i], x[j] = x[j], x[i]\<close>.
  \<open>randbelow n\<close> takes the generator's next draw into the range below \<open>n\<close>; the theorems
  hold for every sequence of draws.
\<close>

definition randbelow :: "nat \<Rightarrow> (nat \<Rightarrow> nat) \<Rightarrow> nat \<times> (nat \<Rightarrow> nat)" where
  "randbelow n g = (g 0 mod n, \<lambda>k. g (Suc k))"

fun shuffle_from :: "nat \<Rightarrow> 'a list \<Rightarrow> (nat \<Rightarrow> nat) \<Rightarrow> 'a list \<times> (nat \<Rightarrow> nat)" where
  "shuffle_from 0 x g = (x, g)"
| "shuffle_from (Suc i) x g =
     (case randbelow (Suc i + 1) g of
        (j, g') \<Rightarrow> shuffle_from i (x[Suc i := x ! j, j := x ! Suc i]) g')"

definition random_shuffle :: "'a list \<Rightarrow> (nat \<Rightarrow> nat) \<Rightarrow> 'a list \<times> (nat \<Rightarrow> nat)" where
  "random_shuffle x g = shuffle_from (length x - 1) x g"

subsection \<open>The deck\<close>

text \<open>\<^verbatim>\<open>create_deck\<close> returns a new list object holding the 52 cards.\<close>

definition create_deck :: "world \<Rightarrow> addr \<times> world" where
  "create_deck w = new_list deck_cards w"

text \<open>\<^verbatim>\<open>shuffle_deck\<close> shuffles the list object it is given, in place.\<close>

definition shuffle_deck :: "addr \<Rightarrow> world \<Rightarrow> world" where
  "shuffle_deck deck w =
     (case random_shuffle (heap w deck) (rng w) of
        (x, g) \<Rightarrow> w\<lparr>heap := (heap w)(deck := x), rng := g\<rparr>)"

text \<open>
  \<^verbatim>\<open>deal_card(deck)\<close>. The parameter \<^verbatim>\<open>deck\<close> is a local name: \<^verbatim>\<open>deck = create_deck()\<close>
  binds it to the address of the new list and leaves the caller's list object, and the
  caller's name for it, as they were. The function returns the card only.
\<close>

definition deal_card :: "addr \<Rightarrow> world \<Rightarrow> error + (card \<times> world)" where
  "deal_card deck w =
     (if heap w deck = [] then
        (case create_deck w of
           (deck', w1) \<Rightarrow> list_pop deck' (shuffle_deck deck' w1))
      else list_pop deck w)"

subsection \<open>Showing hands\<close>

definition suit_symbols :: "string \<rightharpoonup> symbol" where
  "suit_symbols = map_of
     [(''Hearts'', Heart), (''Diamonds'', Diamond), (''Clubs'', Club), (''Spades'', Spade)]"

definition show_card :: "card \<Rightarrow> printed" where
  "show_card c = ShowCard (suit_symbols (suit c)) (rank c)"

text \<open>\<^verbatim>\<open>display_hand\<close>: \<^verbatim>\<open>hand[0]\<close> raises IndexError on an empty hand.\<close>

definition display_hand :: "card list \<Rightarrow> bool \<Rightarrow> world \<Rightarrow> error + world" where
  "display_hand hand show_all w =
     (case hand of
        [] \<Rightarrow> Inl IndexError
      | c # cs \<Rightarrow>
          (let w1 = emit (show_card c) w in
           if show_all then Inr (foldl (\<lambda>w' c'. emit (show_card c') w') w1 cs)
           else Inr (emit HiddenCard w1)))"

definition first_hand :: "card list \<Rightarrow> card list \<Rightarrow> world \<Rightarrow> error + world" where
  "first_hand player dealer w =
     and_then (calculate_hand player) (\<lambda>current_total.
     and_then (display_hand player True (emit (PlayerHand current_total) w)) (\<lambda>w1.
     and_then (display_hand dealer False (emit DealerHandHidden (emit Blank w1))) (\<lambda>w2.
     Inr (emit Blank w2))))"

subsection \<open>Input\<close>

text \<open>
  What the user types is a Python string: a sequence of Unicode code points, of any
  length. The tokens typed are the list of inputs; \<^verbatim>\<open>input()\<close> takes its head and raises
  EOFError when none is left. \<open>ascii s\<close> is the Python string with the characters of the
  literal \<open>s\<close>.
\<close>

type_synonym code_point = nat

type_synonym token = "code_point list"

definition ascii :: "string \<Rightarrow> token" where
  "ascii s = map of_char s"

text \<open>
  \<^verbatim>\<open>str.upper\<close> belongs to Python, not to this repository. It maps every code point to
  its upper-case form, which can be longer than one code point. The model has Python's
  table for the code points up to 255 (a to z; the micro sign, to the Greek capital Mu;
  the sharp s, to SS; the letters from 224 to 254 but the division sign; the y with
  diaeresis, to 376) and for 383, the long s, which Python maps to S. Python's table has
  more entries above 255; the upper-case form of none of them is one of the strings H, S,
  P and Q, which are all that the program compares the result with, and the model leaves
  those code points as they are, which is again none of the four.
\<close>

definition upper_char :: "code_point \<Rightarrow> token" where
  "upper_char c =
     (if 97 \<le> c \<and> c \<le> 122 then [c - 32]
      else if c = 181 then [924]
      else if c = 223 then [83, 83]
      else if 224 \<le> c \<and> c \<le> 254 \<and> c \<noteq> 247 then [c - 32]
      else if c = 255 then [376]
      else if c = 383 then [83]
      else [c])"

definition upper :: "token \<Rightarrow> token" where
  "upper s = concat (map upper_char s)"

text \<open>\<^verbatim>\<open>play_again\<close>: returns on P, quits on Q, asks again on anything else.\<close>

fun play_again :: "token list \<Rightarrow> world \<Rightarrow> error + (token list \<times> world)" where
  "play_again [] w = Inl EOFError"
| "play_again (answer # rest) w =
     (let w1 = emit PromptPlayAgain w in
      if upper answer = ascii ''P'' then Inr (rest, emit Blank w1)
      else if upper answer = ascii ''Q'' then Inl SystemExit
      else play_again rest (emit InvalidInput w1))"

subsection \<open>The round\<close>

text \<open>
  The loop \<^verbatim>\<open>for _ in range(2)\<close> of \<^verbatim>\<open>main\<close>: a card to the player, then one to the
  dealer, each time. The two hands are lists that only \<^verbatim>\<open>main\<close> holds, so they are
  passed as values.
\<close>

fun initial_deal ::
  "nat \<Rightarrow> addr \<Rightarrow> card list \<Rightarrow> card list \<Rightarrow> world \<Rightarrow> error + (card list \<times> card list \<times> world)"
where
  "initial_deal 0 cards player_hand dealer_hand w = Inr (player_hand, dealer_hand, w)"
| "initial_deal (Suc n) cards player_hand dealer_hand w =
     (case deal_card cards w of
        Inl e \<Rightarrow> Inl e
      | Inr (c, w1) \<Rightarrow>
          (case deal_card cards w1 of
             Inl e \<Rightarrow> Inl e
           | Inr (d, w2) \<Rightarrow> initial_deal n cards (player_hand @ [c]) (dealer_hand @ [d]) w2))"

text \<open>
  The player's turn, the first inner \<^verbatim>\<open>while True\<close> of \<^verbatim>\<open>main\<close>. It returns the inputs
  that are left, the player's hand, the flag \<^verbatim>\<open>bust\<close>, the statistics and the world.
\<close>

fun player_turn ::
  "addr \<Rightarrow> token list \<Rightarrow> card list \<Rightarrow> card list \<Rightarrow> stats \<Rightarrow> world
     \<Rightarrow> error + (token list \<times> card list \<times> bool \<times> stats \<times> world)"
where
  "player_turn cards [] player_hand dealer_hand gs w = Inl EOFError"
| "player_turn cards (action # rest) player_hand dealer_hand gs w =
     (let w0 = emit Blank (emit PromptHitStand w) in
      if upper action = ascii ''H'' then
        (case deal_card cards w0 of
           Inl e \<Rightarrow> Inl e
         | Inr (c, w1) \<Rightarrow>
             (case calculate_hand (player_hand @ [c]) of
                Inl e \<Rightarrow> Inl e
              | Inr player_total \<Rightarrow>
                  (case display_hand (player_hand @ [c]) True (emit (PlayerHand player_total) w1) of
                     Inl e \<Rightarrow> Inl e
                   | Inr w2 \<Rightarrow>
                       if player_total > 21 then
                         (let gs1 = gs\<lparr>player_busts := player_busts gs + 1\<rparr>;
                              gs2 = gs1\<lparr>total_losses := total_losses gs1 + 1\<rparr> in
                          case calculate_hand dealer_hand of
                            Inl e \<Rightarrow> Inl e
                          | Inr dealer_total \<Rightarrow>
                              (case display_hand dealer_hand True
                                      (emit (DealerHand dealer_total) (emit Blank w2)) of
                                 Inl e \<Rightarrow> Inl e
                               | Inr w3 \<Rightarrow>
                                   Inr (rest, player_hand @ [c], True, gs2,
                                        emit ResultPlayerBust (emit Blank w3))))
                       else player_turn cards rest (player_hand @ [c]) dealer_hand gs
                              (emit Blank w2))))
      else if upper action = ascii ''S'' then Inr (rest, player_hand, False, gs, w0)
      else player_turn cards rest player_hand dealer_hand gs (emit InvalidInput w0))"

text \<open>
  The dealer's loop, \<^verbatim>\<open>while calculate_hand(dealer_hand) < 17\<close>, with its \<^verbatim>\<open>break\<close> on a
  bust. Every card counts at least 1, so a hand of 17 cards is not below 17: the loop
  ends.
\<close>

function dealer_loop ::
  "addr \<Rightarrow> card list \<Rightarrow> stats \<Rightarrow> world \<Rightarrow> error + (card list \<times> stats \<times> world)"
where
  "dealer_loop cards dealer_hand gs w =
     (case calculate_hand dealer_hand of
        Inl e \<Rightarrow> Inl e
      | Inr t \<Rightarrow>
          if t < 17 then
            (case deal_card cards (emit TakesCard w) of
               Inl e \<Rightarrow> Inl e
             | Inr (c, w1) \<Rightarrow>
                 (case calculate_hand (dealer_hand @ [c]) of
                    Inl e \<Rightarrow> Inl e
                  | Inr dealer_total \<Rightarrow>
                      (case display_hand (dealer_hand @ [c]) True
                              (emit (DealerHand dealer_total) w1) of
                         Inl e \<Rightarrow> Inl e
                       | Inr w2 \<Rightarrow>
                           if dealer_total > 21 then
                             (let gs1 = gs\<lparr>dealer_busts := dealer_busts gs + 1\<rparr>;
                                  gs2 = gs1\<lparr>total_wins := total_wins gs1 + 1\<rparr> in
                              Inr (dealer_hand @ [c], gs2,
                                   emit ResultDealerBust (emit Blank w2)))
                           else dealer_loop cards (dealer_hand @ [c]) gs (emit Blank w2))))
          else Inr (dealer_hand, gs, w))"
  by pat_completeness auto
termination
proof (relation "measure (\<lambda>(cards, dealer_hand, gs, w). 17 - length dealer_hand)")
  show "wf (measure (\<lambda>(cards, dealer_hand, gs, w). 17 - length dealer_hand))"
    by simp
next
  fix cards :: addr and dealer_hand :: "card list" and gs :: stats and w :: world
    and t :: int and x :: "card \<times> world" and c :: card and w1 :: world
    and dealer_total :: int and w2 :: world
  assume "calculate_hand dealer_hand = Inr t" and "t < 17"
  then have "length dealer_hand < 17"
    using calculate_hand_length [of dealer_hand t] by simp
  then show "((cards, dealer_hand @ [c], gs, emit Blank w2), (cards, dealer_hand, gs, w))
      \<in> measure (\<lambda>(cards, dealer_hand, gs, w). 17 - length dealer_hand)"
    by simp
qed

declare dealer_loop.simps [simp del]

text \<open>The dealer's turn: the block under \<^verbatim>\<open>if not bust\<close>.\<close>

definition dealer_turn ::
  "addr \<Rightarrow> card list \<Rightarrow> stats \<Rightarrow> world \<Rightarrow> error + (card list \<times> stats \<times> world)"
where
  "dealer_turn cards dealer_hand gs w =
     and_then (calculate_hand dealer_hand) (\<lambda>dealer_total.
     and_then (display_hand dealer_hand True (emit (DealerHand dealer_total) w)) (\<lambda>w1.
     dealer_loop cards dealer_hand gs (emit Blank w1)))"

text \<open>The final comparison of \<^verbatim>\<open>main\<close>: \<^verbatim>\<open>if\<close>, \<^verbatim>\<open>elif\<close>, \<^verbatim>\<open>elif\<close>, and no \<^verbatim>\<open>else\<close>.\<close>

definition check_result :: "int \<Rightarrow> int \<Rightarrow> stats \<Rightarrow> world \<Rightarrow> stats \<times> world" where
  "check_result player_total dealer_total gs w =
     (if player_total = dealer_total then
        (gs\<lparr>total_ties := total_ties gs + 1\<rparr>,
         emit ResultTie (emit (Scores player_total dealer_total) w))
      else if player_total > dealer_total \<and> player_total \<le> 21 then
        (gs\<lparr>total_wins := total_wins gs + 1\<rparr>,
         emit ResultWin (emit (Scores player_total dealer_total) w))
      else if dealer_total > player_total \<and> dealer_total \<le> 21 then
        (gs\<lparr>total_losses := total_losses gs + 1\<rparr>,
         emit ResultLose (emit (Scores player_total dealer_total) w))
      else (gs, w))"

definition save_game_stats :: "stats \<Rightarrow> world \<Rightarrow> world" where
  "save_game_stats gs w = w\<lparr>stats_file := Some gs\<rparr>"

text \<open>
  What one pass through the body of the game loop leaves behind: the inputs not yet
  read, the two hands, the flag \<^verbatim>\<open>bust\<close>, the statistics and the world.
\<close>

record round =
  inputs_left :: "token list"
  player_hand :: "card list"
  dealer_hand :: "card list"
  bust :: bool
  game_stats :: stats
  world_after :: world

text \<open>
  The body of \<^verbatim>\<open>while True\<close> in \<^verbatim>\<open>main\<close>, up to and with \<^verbatim>\<open>save_game_stats\<close>. \<open>cards\<close> is
  the address that the name \<^verbatim>\<open>cards\<close> of \<^verbatim>\<open>main\<close> holds; nothing in the loop binds the name
  again.
\<close>

definition play_round :: "addr \<Rightarrow> token list \<Rightarrow> stats \<Rightarrow> world \<Rightarrow> error + round" where
  "play_round cards ins gs w =
     (let gs1 = gs\<lparr>total_games := total_games gs + 1\<rparr> in
      and_then (initial_deal 2 cards [] [] w) (\<lambda>(ph, dh, w1).
      and_then (first_hand ph dh w1) (\<lambda>w2.
      and_then (player_turn cards ins ph dh gs1 w2) (\<lambda>(ins', ph', bust', gs2, w3).
      and_then (if \<not> bust' then dealer_turn cards dh gs2 w3 else Inr (dh, gs2, w3))
        (\<lambda>(dh', gs3, w4).
      and_then (calculate_hand ph') (\<lambda>player_total.
      and_then (calculate_hand dh') (\<lambda>dealer_total.
      case check_result player_total dealer_total gs3 w4 of
        (gs4, w5) \<Rightarrow>
          Inr \<lparr>inputs_left = ins', player_hand = ph', dealer_hand = dh', bust = bust',
               game_stats = gs4, world_after = save_game_stats gs4 w5\<rparr>)))))))"

subsection \<open>The game loop\<close>

text \<open>
  A pass through the body of the loop reads at least one input, and so does
  \<^verbatim>\<open>play_again\<close> when it returns: the loop over a list of inputs ends.
\<close>

lemma and_then_simps [simp]:
  "and_then (Inl e) f = Inl e" "and_then (Inr x) f = f x"
  by (simp_all add: and_then_def)

lemma player_turn_inputs:
  "player_turn cards ins ph dh gs w = Inr (ins', ph', b, gs', w') \<Longrightarrow> length ins' < length ins"
proof (induction ins arbitrary: ph w)
  case Nil
  then show ?case by simp
next
  case (Cons action rest)
  from Cons.prems show ?case
    by (auto simp: Let_def split: if_splits sum.splits prod.splits dest!: Cons.IH)
qed

lemma play_again_inputs:
  "play_again ins w = Inr (ins', w') \<Longrightarrow> length ins' < length ins"
proof (induction ins arbitrary: w)
  case Nil
  then show ?case by simp
next
  case (Cons answer rest)
  from Cons.prems show ?case
    by (auto simp: Let_def split: if_splits dest!: Cons.IH)
qed

lemma and_then_Inr: "and_then m f = Inr y \<Longrightarrow> \<exists>x. m = Inr x \<and> f x = Inr y"
  by (cases m) simp_all

lemma play_round_inputs:
  assumes "play_round cards ins gs w = Inr r"
  shows "length (inputs_left r) < length ins"
proof -
  from assms obtain x1 where x1: "initial_deal 2 cards [] [] w = Inr x1"
    and r1: "(case x1 of (ph, dh, w1) \<Rightarrow>
      and_then (first_hand ph dh w1) (\<lambda>w2.
      and_then (player_turn cards ins ph dh (gs\<lparr>total_games := total_games gs + 1\<rparr>) w2)
        (\<lambda>(ins', ph', bust', gs2, w3).
      and_then (if \<not> bust' then dealer_turn cards dh gs2 w3 else Inr (dh, gs2, w3))
        (\<lambda>(dh', gs3, w4).
      and_then (calculate_hand ph') (\<lambda>player_total.
      and_then (calculate_hand dh') (\<lambda>dealer_total.
      case check_result player_total dealer_total gs3 w4 of
        (gs4, w5) \<Rightarrow>
          Inr \<lparr>inputs_left = ins', player_hand = ph', dealer_hand = dh', bust = bust',
               game_stats = gs4, world_after = save_game_stats gs4 w5\<rparr>)))))) = Inr r"
    unfolding play_round_def Let_def by (blast dest: and_then_Inr)
  obtain ph dh w1 where x1e: "x1 = (ph, dh, w1)" by (cases x1) auto
  from r1 [unfolded x1e prod.case] obtain w2 where
    r2: "and_then (player_turn cards ins ph dh (gs\<lparr>total_games := total_games gs + 1\<rparr>) w2)
        (\<lambda>(ins', ph', bust', gs2, w3).
      and_then (if \<not> bust' then dealer_turn cards dh gs2 w3 else Inr (dh, gs2, w3))
        (\<lambda>(dh', gs3, w4).
      and_then (calculate_hand ph') (\<lambda>player_total.
      and_then (calculate_hand dh') (\<lambda>dealer_total.
      case check_result player_total dealer_total gs3 w4 of
        (gs4, w5) \<Rightarrow>
          Inr \<lparr>inputs_left = ins', player_hand = ph', dealer_hand = dh', bust = bust',
               game_stats = gs4, world_after = save_game_stats gs4 w5\<rparr>)))) = Inr r"
    by (blast dest: and_then_Inr)
  from and_then_Inr [OF r2] obtain x3 where
    x3: "player_turn cards ins ph dh (gs\<lparr>total_games := total_games gs + 1\<rparr>) w2 = Inr x3"
    and r3: "(case x3 of (ins', ph', bust', gs2, w3) \<Rightarrow>
      and_then (if \<not> bust' then dealer_turn cards dh gs2 w3 else Inr (dh, gs2, w3))
        (\<lambda>(dh', gs3, w4).
      and_then (calculate_hand ph') (\<lambda>player_total.
      and_then (calculate_hand dh') (\<lambda>dealer_total.
      case check_result player_total dealer_total gs3 w4 of
        (gs4, w5) \<Rightarrow>
          Inr \<lparr>inputs_left = ins', player_hand = ph', dealer_hand = dh', bust = bust',
               game_stats = gs4, world_after = save_game_stats gs4 w5\<rparr>)))) = Inr r"
    by blast
  obtain ins' ph' b gs2 w3 where x3e: "x3 = (ins', ph', b, gs2, w3)" by (cases x3) auto
  have "inputs_left r = ins'"
    using r3 unfolding x3e prod.case
    by (auto dest!: and_then_Inr split: prod.splits)
  with player_turn_inputs [OF x3 [unfolded x3e]] show ?thesis by simp
qed

text \<open>
  The loop \<^verbatim>\<open>while True\<close> of \<^verbatim>\<open>main\<close>. It never returns: it ends with \<^verbatim>\<open>quit()\<close> or with an
  exception. The model returns that exception and, before it, the rounds that were
  completed, in order.
\<close>

function game_loop :: "addr \<Rightarrow> token list \<Rightarrow> stats \<Rightarrow> world \<Rightarrow> round list \<times> error" where
  "game_loop cards ins gs w =
     (case play_round cards ins gs w of
        Inl e \<Rightarrow> ([], e)
      | Inr r \<Rightarrow>
          (case play_again (inputs_left r) (world_after r) of
             Inl e \<Rightarrow> ([r], e)
           | Inr (ins', w') \<Rightarrow>
               (case game_loop cards ins' (game_stats r) w' of
                  (rs, e) \<Rightarrow> (r # rs, e))))"
  by pat_completeness auto
termination
proof (relation "measure (\<lambda>(cards, ins, gs, w). length ins)")
  show "wf (measure (\<lambda>(cards, ins, gs, w). length ins))" by simp
next
  fix cards :: addr and ins :: "token list" and gs :: stats and w :: world and r :: round
    and x :: "token list \<times> world" and ins' :: "token list" and w' :: world
  assume "play_round cards ins gs w = Inr r"
    and "play_again (inputs_left r) (world_after r) = Inr x" and "(ins', w') = x"
  then have "length (inputs_left r) < length ins" "length ins' < length (inputs_left r)"
    using play_round_inputs play_again_inputs by auto
  then show "((cards, ins', game_stats r, w'), (cards, ins, gs, w))
      \<in> measure (\<lambda>(cards, ins, gs, w). length ins)" by simp
qed

declare game_loop.simps [simp del]

text \<open>
  \<^verbatim>\<open>load_game_stats\<close>, \<^verbatim>\<open>display_game_stats\<close> and \<^verbatim>\<open>welcome\<close> (here \<open>show_welcome\<close>), and
  \<^verbatim>\<open>main\<close>: the deck is created and shuffled once, before the loop.
\<close>

definition load_game_stats :: "world \<Rightarrow> stats" where
  "load_game_stats w =
     (case stats_file w of
        Some gs \<Rightarrow> gs
      | None \<Rightarrow> \<lparr>total_games = 0, total_wins = 0, total_losses = 0, total_ties = 0,
                  player_busts = 0, dealer_busts = 0\<rparr>)"

definition display_game_stats :: "stats \<Rightarrow> world \<Rightarrow> world" where
  "display_game_stats gs w =
     emit (SavedStats (total_games gs) (total_wins gs) (total_losses gs) (total_ties gs)
             (player_busts gs) (dealer_busts gs)) w"

definition show_welcome :: "world \<Rightarrow> world" where
  "show_welcome w = emit (Welcome (welcome_file w)) w"

definition main :: "token list \<Rightarrow> world \<Rightarrow> round list \<times> error" where
  "main ins w =
     (let w1 = show_welcome w;
          game_stats = load_game_stats w1;
          w2 = emit LetsPlay (display_game_stats game_stats w1)
      in case create_deck w2 of
           (cards, w3) \<Rightarrow> game_loop cards ins game_stats (shuffle_deck cards w3))"

subsection \<open>Notation for the statements\<close>

text \<open>\<open>said xs w\<close> is the world \<open>w\<close> after the lines \<open>xs\<close> were printed; nothing else differs.\<close>

definition said :: "printed list \<Rightarrow> world \<Rightarrow> world" where
  "said xs w = w\<lparr>console := console w @ xs\<rparr>"

text \<open>The two increments of the dealer's bust.\<close>

definition dealer_bust_stats :: "stats \<Rightarrow> stats" where
  "dealer_bust_stats gs =
     gs\<lparr>dealer_busts := dealer_busts gs + 1, total_wins := total_wins gs + 1\<rparr>"

text \<open>The two increments of the player's bust.\<close>

definition player_bust_stats :: "stats \<Rightarrow> stats" where
  "player_bust_stats gs =
     gs\<lparr>player_busts := player_busts gs + 1, total_losses := total_losses gs + 1\<rparr>"

text \<open>The increment at the start of a round.\<close>

definition started :: "stats \<Rightarrow> stats" where
  "started gs = gs\<lparr>total_games := total_games gs + 1\<rparr>"

text \<open>The token of one code point, 383: the long s.\<close>

definition long_s :: token where
  "long_s = [383]"

text \<open>
  An example world: the list at address 0 is the deck (its last card is the top), no
  other list exists, the generator draws zeros, nothing is printed and nothing is saved.
\<close>

definition table :: "card list \<Rightarrow> world" where
  "table deck = \<lparr>heap = (\<lambda>a. [])(0 := deck), fresh = 1, rng = (\<lambda>k. 0), console = [],
                 stats_file = None, welcome_file = None\<rparr>"

text \<open>The statistics \<^verbatim>\<open>load_game_stats\<close> returns when no file is found: all zero.\<close>

definition no_games :: stats where
  "no_games = \<lparr>total_games = 0, total_wins = 0, total_losses = 0, total_ties = 0,
               player_busts = 0, dealer_busts = 0\<rparr>"

text \<open>
  One round's effect on the counters: one more game and one more of exactly one of wins,
  losses and ties.
\<close>

definition one_outcome :: "stats \<Rightarrow> stats \<Rightarrow> bool" where
  "one_outcome gs gs' =
     (total_games gs' = total_games gs + 1
      \<and> ((total_wins gs' = total_wins gs + 1 \<and> total_losses gs' = total_losses gs
           \<and> total_ties gs' = total_ties gs)
         \<or> (total_wins gs' = total_wins gs \<and> total_losses gs' = total_losses gs + 1
           \<and> total_ties gs' = total_ties gs)
         \<or> (total_wins gs' = total_wins gs \<and> total_losses gs' = total_losses gs
           \<and> total_ties gs' = total_ties gs + 1)))"

text \<open>Every round of a list has that effect on the counters the round before it left.\<close>

fun rounds_from :: "stats \<Rightarrow> round list \<Rightarrow> bool" where
  "rounds_from gs [] = True"
| "rounds_from gs (r # rs) = (one_outcome gs (game_stats r) \<and> rounds_from (game_stats r) rs)"

section \<open>Facts about the model\<close>

subsection \<open>Shuffling and the deck\<close>

lemma shuffle_from_mset:
  "i < length x \<Longrightarrow> mset (fst (shuffle_from i x g)) = mset x"
proof (induction i arbitrary: x g)
  case 0
  show ?case by simp
next
  case (Suc i)
  let ?j = "g 0 mod (Suc i + 1)"
  let ?x = "x[Suc i := x ! ?j, ?j := x ! Suc i]"
  have j: "?j < length x"
  proof -
    have "?j < Suc i + 1" by simp
    with Suc.prems show ?thesis by arith
  qed
  have "mset ?x = mset x"
    using Suc.prems j by (simp add: mset_swap)
  moreover have "mset (fst (shuffle_from i ?x (\<lambda>k. g (Suc k)))) = mset ?x"
    using Suc.prems by (intro Suc.IH) simp
  ultimately show ?case by (simp add: randbelow_def)
qed

lemma random_shuffle_mset: "mset (fst (random_shuffle x g)) = mset x"
proof (cases x)
  case Nil
  then show ?thesis by (simp add: random_shuffle_def)
next
  case (Cons a xs)
  then show ?thesis by (simp add: random_shuffle_def shuffle_from_mset)
qed

lemma deck_cards_length: "length deck_cards = 52"
  by (simp add: deck_cards_def suits_def ranks_def)

lemma deck_cards_distinct: "distinct deck_cards"
  by (simp add: deck_cards_def suits_def ranks_def)

lemma deck_cards_set: "set deck_cards = {Card s r | s r. s \<in> set suits \<and> r \<in> set ranks}"
  by (auto simp: deck_cards_def)

subsection \<open>Hands as multisets of ranks\<close>

lemma face_sum_mset:
  "face_sum hand = sum_mset (image_mset face_value (mset (map rank hand)))"
  by (induction hand) (simp_all add: face_sum_def)

lemma num_aces_in_mset: "num_aces_in hand = count (mset (map rank hand)) ''A''"
  by (induction hand) (simp_all add: num_aces_in_def)

lemma valid_hand_set:
  "list_all valid_card hand = (set (map rank hand) \<subseteq> set ranks)"
  by (auto simp: list_all_iff valid_card_def)

lemma calculate_hand_ranks:
  assumes "mset (map rank h1) = mset (map rank h2)" and "calculate_hand h1 = Inr t"
  shows "calculate_hand h2 = Inr t"
proof -
  have v1: "list_all valid_card h1" using assms(2) by (rule calculate_hand_Inr)
  have "set (map rank h1) = set (map rank h2)" using assms(1) by (rule mset_eq_setD)
  with v1 have v2: "list_all valid_card h2" by (simp only: valid_hand_set)
  have "face_sum h1 = face_sum h2" "num_aces_in h1 = num_aces_in h2"
    using assms(1) by (simp_all add: face_sum_mset num_aces_in_mset)
  with calculate_hand_valid [OF v1] calculate_hand_valid [OF v2] assms(2)
  show ?thesis by simp
qed

subsection \<open>Dealing\<close>

lemma list_pop_nonempty:
  "heap w a \<noteq> [] \<Longrightarrow>
     list_pop a w = Inr (last (heap w a), w\<lparr>heap := (heap w)(a := butlast (heap w a))\<rparr>)"
  by (cases "heap w a") (simp_all add: list_pop_def)

lemma shuffle_deck_lists:
  "mset (heap (shuffle_deck deck w) deck) = mset (heap w deck)"
  "a \<noteq> deck \<Longrightarrow> heap (shuffle_deck deck w) a = heap w a"
  "fresh (shuffle_deck deck w) = fresh w"
  "console (shuffle_deck deck w) = console w"
  "stats_file (shuffle_deck deck w) = stats_file w"
  using random_shuffle_mset [of "heap w deck" "rng w"]
  by (cases "random_shuffle (heap w deck) (rng w)"; simp add: shuffle_deck_def)+

subsection \<open>The console and invalid input\<close>

lemma said_Nil: "said [] w = w"
  by (simp add: said_def)

lemma emit_said: "said xs (emit x w) = said (x # xs) w"
  by (simp add: said_def emit_def)

lemma player_turn_invalid:
  assumes "upper action \<noteq> ascii ''H''" and "upper action \<noteq> ascii ''S''"
  shows "player_turn cards (action # rest) ph dh gs w =
         player_turn cards rest ph dh gs (said [PromptHitStand, Blank, InvalidInput] w)"
  using assms by (simp add: said_def emit_def)

lemma play_again_invalid:
  assumes "upper answer \<noteq> ascii ''P''" and "upper answer \<noteq> ascii ''Q''"
  shows "play_again (answer # rest) w = play_again rest (said [PromptPlayAgain, InvalidInput] w)"
  using assms by (simp add: said_def emit_def)

lemma said_said: "said ys (said xs w) = said (xs @ ys) w"
  by (simp add: said_def)

lemma player_turn_invalid_many:
  "\<forall>a\<in>set bad. upper a \<noteq> ascii ''H'' \<and> upper a \<noteq> ascii ''S'' \<Longrightarrow>
     player_turn cards (bad @ rest) ph dh gs w =
     player_turn cards rest ph dh gs
       (said (concat (map (\<lambda>a. [PromptHitStand, Blank, InvalidInput]) bad)) w)"
proof (induction bad arbitrary: w)
  case Nil
  show ?case by (simp add: said_Nil)
next
  case (Cons a bad)
  then have a: "upper a \<noteq> ascii ''H''" "upper a \<noteq> ascii ''S''" by simp_all
  from Cons have "player_turn cards (bad @ rest) ph dh gs (said [PromptHitStand, Blank, InvalidInput] w) =
     player_turn cards rest ph dh gs
       (said (concat (map (\<lambda>a. [PromptHitStand, Blank, InvalidInput]) bad)) (said [PromptHitStand, Blank, InvalidInput] w))"
    by simp
  then show ?case
    using player_turn_invalid [OF a] by (simp add: said_said)
qed

lemma play_again_invalid_many:
  "\<forall>a\<in>set bad. upper a \<noteq> ascii ''P'' \<and> upper a \<noteq> ascii ''Q'' \<Longrightarrow>
     play_again (bad @ rest) w =
     play_again rest (said (concat (map (\<lambda>a. [PromptPlayAgain, InvalidInput]) bad)) w)"
proof (induction bad arbitrary: w)
  case Nil
  show ?case by (simp add: said_Nil)
next
  case (Cons a bad)
  then have a: "upper a \<noteq> ascii ''P''" "upper a \<noteq> ascii ''Q''" by simp_all
  from Cons have "play_again (bad @ rest) (said [PromptPlayAgain, InvalidInput] w) =
     play_again rest
       (said (concat (map (\<lambda>a. [PromptPlayAgain, InvalidInput]) bad)) (said [PromptPlayAgain, InvalidInput] w))"
    by simp
  then show ?case
    using play_again_invalid [OF a] by (simp add: said_said)
qed

subsection \<open>Dealing and showing never fail\<close>

lemma said_fields [simp]:
  "heap (said xs w) = heap w" "fresh (said xs w) = fresh w" "rng (said xs w) = rng w"
  "stats_file (said xs w) = stats_file w" "console (said xs w) = console w @ xs"
  by (simp_all add: said_def)

lemma emit_as_said: "emit x w = said [x] w"
  by (simp add: emit_def said_def)

lemma deck_cards_valid: "list_all valid_card deck_cards"
  by (simp add: deck_cards_def valid_card_def list_all_iff)

lemma list_all_butlast: "list_all P xs \<Longrightarrow> list_all P (butlast xs)"
  by (auto simp: list_all_iff dest: in_set_butlastD)

lemma list_all_last: "list_all P xs \<Longrightarrow> xs \<noteq> [] \<Longrightarrow> P (last xs)"
  by (simp add: list_all_iff)

lemma deal_card_total:
  assumes "list_all valid_card (heap w cards)"
  shows "\<exists>c w'. deal_card cards w = Inr (c, w') \<and> valid_card c
           \<and> list_all valid_card (heap w' cards) \<and> console w' = console w"
proof (cases "heap w cards = []")
  case False
  with assms show ?thesis
    by (simp add: deal_card_def list_pop_nonempty list_all_butlast list_all_last)
next
  case True
  let ?d = "fresh w"
  let ?w1 = "w\<lparr>heap := (heap w)(?d := deck_cards), fresh := Suc ?d\<rparr>"
  let ?w2 = "shuffle_deck ?d ?w1"
  have m: "mset (heap ?w2 ?d) = mset deck_cards"
    using shuffle_deck_lists(1) [of ?d ?w1] by simp
  then have s: "set (heap ?w2 ?d) = set deck_cards" by (rule mset_eq_setD)
  have "length (heap ?w2 ?d) = 52"
    using m deck_cards_length by (metis size_mset)
  then have ne: "heap ?w2 ?d \<noteq> []" by auto
  have v: "list_all valid_card (heap ?w2 ?d)"
    using deck_cards_valid s by (simp add: list_all_iff)
  have other: "cards \<noteq> ?d \<Longrightarrow> heap ?w2 cards = []"
    using shuffle_deck_lists(2) [of cards ?d ?w1] True by simp
  have "deal_card cards w = list_pop ?d ?w2"
    using True by (simp add: deal_card_def create_deck_def new_list_def)
  then have "deal_card cards w =
      Inr (last (heap ?w2 ?d), ?w2\<lparr>heap := (heap ?w2)(?d := butlast (heap ?w2 ?d))\<rparr>)"
    using list_pop_nonempty [OF ne] by simp
  moreover have "valid_card (last (heap ?w2 ?d))"
    using v ne by (rule list_all_last)
  moreover have "list_all valid_card
      (heap (?w2\<lparr>heap := (heap ?w2)(?d := butlast (heap ?w2 ?d))\<rparr>) cards)"
    using other list_all_butlast [OF v] by (cases "cards = ?d") simp_all
  moreover have "console (?w2\<lparr>heap := (heap ?w2)(?d := butlast (heap ?w2 ?d))\<rparr>) = console w"
    by (simp add: shuffle_deck_lists(4))
  ultimately show ?thesis by blast
qed

lemma foldl_emit:
  "foldl (\<lambda>w' c'. emit (show_card c') w') w cs = said (map show_card cs) w"
  by (induction cs arbitrary: w) (simp_all add: said_Nil emit_said)

lemma display_hand_nonempty:
  "hand \<noteq> [] \<Longrightarrow> \<exists>xs. display_hand hand b w = Inr (said xs w)"
proof (cases hand)
  case Nil
  assume "hand \<noteq> []"
  with Nil show ?thesis by simp
next
  case (Cons c cs)
  show ?thesis
  proof (cases b)
    case True
    with Cons have "display_hand hand b w = Inr (said (show_card c # map show_card cs) w)"
      by (simp add: display_hand_def foldl_emit emit_said)
    then show ?thesis by blast
  next
    case False
    with Cons have "display_hand hand b w = Inr (said [show_card c, HiddenCard] w)"
      by (simp add: display_hand_def emit_as_said said_said)
    then show ?thesis by blast
  qed
qed

lemma calculate_hand_returns:
  "list_all valid_card hand \<Longrightarrow> \<exists>t. calculate_hand hand = Inr t"
  by (simp add: calculate_hand_valid)

lemma first_hand_total:
  assumes "list_all valid_card player" "player \<noteq> []" "dealer \<noteq> []"
  shows "\<exists>xs. first_hand player dealer w = Inr (said xs w)"
proof -
  from assms(1) obtain t where t: "calculate_hand player = Inr t"
    using calculate_hand_returns by blast
  obtain xs where xs: "display_hand player True (emit (PlayerHand t) w) = Inr (said xs (emit (PlayerHand t) w))"
    using display_hand_nonempty [OF assms(2)] by blast
  let ?w1 = "said xs (emit (PlayerHand t) w)"
  obtain ys where ys: "display_hand dealer False (emit DealerHandHidden (emit Blank ?w1))
      = Inr (said ys (emit DealerHandHidden (emit Blank ?w1)))"
    using display_hand_nonempty [OF assms(3)] by blast
  have "first_hand player dealer w = Inr (emit Blank (said ys (emit DealerHandHidden (emit Blank ?w1))))"
    by (simp add: first_hand_def t xs ys)
  then show ?thesis
    by (simp add: emit_as_said said_said) blast
qed

lemma initial_deal_two:
  assumes "list_all valid_card (heap w cards)"
  shows "\<exists>p1 p2 d1 d2 w'. initial_deal 2 cards [] [] w = Inr ([p1, p2], [d1, d2], w')
           \<and> valid_card p1 \<and> valid_card p2 \<and> valid_card d1 \<and> valid_card d2
           \<and> list_all valid_card (heap w' cards) \<and> console w' = console w"
proof -
  from deal_card_total [OF assms] obtain p1 w1 where
    1: "deal_card cards w = Inr (p1, w1)" "valid_card p1" "list_all valid_card (heap w1 cards)"
       "console w1 = console w" by blast
  from deal_card_total [OF 1(3)] obtain d1 w2 where
    2: "deal_card cards w1 = Inr (d1, w2)" "valid_card d1" "list_all valid_card (heap w2 cards)"
       "console w2 = console w1" by blast
  from deal_card_total [OF 2(3)] obtain p2 w3 where
    3: "deal_card cards w2 = Inr (p2, w3)" "valid_card p2" "list_all valid_card (heap w3 cards)"
       "console w3 = console w2" by blast
  from deal_card_total [OF 3(3)] obtain d2 w4 where
    4: "deal_card cards w3 = Inr (d2, w4)" "valid_card d2" "list_all valid_card (heap w4 cards)"
       "console w4 = console w3" by blast
  have "initial_deal 2 cards [] [] w = Inr ([p1, p2], [d1, d2], w4)"
    by (simp add: numeral_2_eq_2 1(1) 2(1) 3(1) 4(1))
  with 1 2 3 4 show ?thesis by auto
qed

lemma two_cards_at_most_21:
  assumes "valid_card a" "valid_card b" "calculate_hand [a, b] = Inr t"
  shows "t \<le> 21"
proof -
  have v: "list_all valid_card [a, b]" using assms by simp
  obtain k where k: "ace_loop (face_sum [a, b]) (int (num_aces_in [a, b])) = face_sum [a, b] - 10 * int k"
    "21 < face_sum [a, b] - 10 * int k \<longrightarrow> k = num_aces_in [a, b]"
    using ace_loop_demotions [of "face_sum [a, b]" "num_aces_in [a, b]"] by blast
  have t: "t = face_sum [a, b] - 10 * int k"
    using calculate_hand_valid [OF v] assms(3) k(1) by simp
  have ra: "rank a \<in> set ranks" and rb: "rank b \<in> set ranks"
    using assms by (simp_all add: valid_card_def)
  show ?thesis
  proof (rule ccontr)
    assume "\<not> t \<le> 21"
    with t k(2) have kk: "k = num_aces_in [a, b]" by simp
    from face_value_bounds [OF ra] face_value_bounds [OF rb] t kk \<open>\<not> t \<le> 21\<close>
    show False
      by (cases "rank a = ''A''"; cases "rank b = ''A''")
         (simp_all add: face_sum_def num_aces_in_def face_value_ace)
  qed
qed

subsection \<open>The dealer's loop\<close>

lemma dealer_loop_stand:
  "calculate_hand dh = Inr t \<Longrightarrow> \<not> t < 17 \<Longrightarrow> dealer_loop cards dh gs w = Inr (dh, gs, w)"
  by (subst dealer_loop.simps) simp

lemma dealer_loop_bust:
  "calculate_hand dh = Inr t \<Longrightarrow> t < 17 \<Longrightarrow>
   deal_card cards (emit TakesCard w) = Inr (c, w1) \<Longrightarrow>
   calculate_hand (dh @ [c]) = Inr t1 \<Longrightarrow>
   display_hand (dh @ [c]) True (emit (DealerHand t1) w1) = Inr w2 \<Longrightarrow>
   21 < t1 \<Longrightarrow>
   dealer_loop cards dh gs w =
     Inr (dh @ [c], gs\<lparr>dealer_busts := dealer_busts gs + 1, total_wins := total_wins gs + 1\<rparr>,
          emit ResultDealerBust (emit Blank w2))"
  by (subst dealer_loop.simps) simp

lemma dealer_loop_draw:
  "calculate_hand dh = Inr t \<Longrightarrow> t < 17 \<Longrightarrow>
   deal_card cards (emit TakesCard w) = Inr (c, w1) \<Longrightarrow>
   calculate_hand (dh @ [c]) = Inr t1 \<Longrightarrow>
   display_hand (dh @ [c]) True (emit (DealerHand t1) w1) = Inr w2 \<Longrightarrow>
   \<not> 21 < t1 \<Longrightarrow>
   dealer_loop cards dh gs w = dealer_loop cards (dh @ [c]) gs (emit Blank w2)"
  by (subst dealer_loop.simps) simp

lemma dealer_loop_run:
  assumes "list_all valid_card (heap w cards)" and "list_all valid_card dh"
  shows "\<exists>drawn gs' w' t'.
           dealer_loop cards dh gs w = Inr (dh @ drawn, gs', w')
         \<and> (\<forall>n<length drawn. \<exists>t. calculate_hand (dh @ take n drawn) = Inr t \<and> t < 17)
         \<and> calculate_hand (dh @ drawn) = Inr t' \<and> 17 \<le> t'
         \<and> gs' = (if drawn \<noteq> [] \<and> 21 < t' then dealer_bust_stats gs else gs)
         \<and> (drawn = [] \<longrightarrow> w' = w)
         \<and> list_all valid_card drawn
         \<and> list_all valid_card (heap w' cards)"
  using assms
proof (induction cards dh gs w rule: dealer_loop.induct)
  case (1 cards dh gs w)
  from "1.prems"(2) obtain t where t: "calculate_hand dh = Inr t"
    using calculate_hand_returns by blast
  show ?case
  proof (cases "t < 17")
    case False
    with t have "dealer_loop cards dh gs w = Inr (dh @ [], gs, w)"
      by (simp add: dealer_loop_stand)
    with t False "1.prems" show ?thesis
      by (intro exI [of _ "[]"] exI [of _ gs] exI [of _ w] exI [of _ t]) simp
  next
    case True
    have "list_all valid_card (heap (emit TakesCard w) cards)"
      using "1.prems"(1) by (simp add: emit_as_said)
    from deal_card_total [OF this] obtain c w1 where
      d: "deal_card cards (emit TakesCard w) = Inr (c, w1)" "valid_card c"
         "list_all valid_card (heap w1 cards)" by blast
    have v1: "list_all valid_card (dh @ [c])" using "1.prems"(2) d(2) by simp
    then obtain t1 where t1: "calculate_hand (dh @ [c]) = Inr t1"
      using calculate_hand_returns by blast
    obtain xs where xs: "display_hand (dh @ [c]) True (emit (DealerHand t1) w1)
        = Inr (said xs (emit (DealerHand t1) w1))"
      using display_hand_nonempty [of "dh @ [c]" True "emit (DealerHand t1) w1"] by auto
    let ?w2 = "said xs (emit (DealerHand t1) w1)"
    have h2: "heap ?w2 = heap w1" by (simp add: emit_as_said)
    show ?thesis
    proof (cases "21 < t1")
      case True
      have "dealer_loop cards dh gs w =
          Inr (dh @ [c], dealer_bust_stats gs, emit ResultDealerBust (emit Blank ?w2))"
        unfolding dealer_bust_stats_def
        using t \<open>t < 17\<close> d(1) t1 xs True by (rule dealer_loop_bust)
      moreover have "\<forall>n<length [c]. \<exists>ta. calculate_hand (dh @ take n [c]) = Inr ta \<and> ta < 17"
        using t \<open>t < 17\<close> by simp
      moreover have "list_all valid_card (heap (emit ResultDealerBust (emit Blank ?w2)) cards)"
        using d(3) by (simp add: emit_as_said)
      ultimately show ?thesis
        using t1 True d(2)
        by (intro exI [of _ "[c]"] exI [of _ "dealer_bust_stats gs"]
              exI [of _ "emit ResultDealerBust (emit Blank ?w2)"] exI [of _ t1]) simp
    next
      case False
      have step: "dealer_loop cards dh gs w = dealer_loop cards (dh @ [c]) gs (emit Blank ?w2)"
        using t \<open>t < 17\<close> d(1) t1 xs False by (rule dealer_loop_draw)
      have vd: "list_all valid_card (heap (emit Blank ?w2) cards)"
        using d(3) by (simp add: emit_as_said)
      from "1.IH" [OF t \<open>t < 17\<close> d(1) refl t1 xs False vd v1]
      obtain drawn gs' w' t' where r:
        "dealer_loop cards (dh @ [c]) gs (emit Blank ?w2) = Inr ((dh @ [c]) @ drawn, gs', w')"
        "\<forall>n<length drawn. \<exists>ta. calculate_hand ((dh @ [c]) @ take n drawn) = Inr ta \<and> ta < 17"
        "calculate_hand ((dh @ [c]) @ drawn) = Inr t'" "17 \<le> t'"
        "gs' = (if drawn \<noteq> [] \<and> 21 < t' then dealer_bust_stats gs else gs)"
        "list_all valid_card drawn"
        "list_all valid_card (heap w' cards)" by blast
      have a: "dealer_loop cards dh gs w = Inr (dh @ (c # drawn), gs', w')"
        using step r(1) by simp
      have b: "\<forall>n<length (c # drawn). \<exists>ta. calculate_hand (dh @ take n (c # drawn)) = Inr ta \<and> ta < 17"
      proof (intro allI impI)
        fix n assume "n < length (c # drawn)"
        then show "\<exists>ta. calculate_hand (dh @ take n (c # drawn)) = Inr ta \<and> ta < 17"
          using t \<open>t < 17\<close> r(2) by (cases n) simp_all
      qed
      have e: "gs' = (if c # drawn \<noteq> [] \<and> 21 < t' then dealer_bust_stats gs else gs)"
      proof (cases "drawn = []")
        case True
        with r(3) t1 have "t' = t1" by simp
        with False r(5) True show ?thesis by simp
      next
        case False
        with r(5) show ?thesis by simp
      qed
      from a b r(3,4) e r(6,7) d(2) show ?thesis
        by (intro exI [of _ "c # drawn"] exI [of _ gs'] exI [of _ w'] exI [of _ t']) simp
    qed
  qed
qed

subsection \<open>The player's turn\<close>

lemma player_turn_hit_bust:
  "upper action = ascii ''H'' \<Longrightarrow>
   deal_card cards (emit Blank (emit PromptHitStand w)) = Inr (c, w1) \<Longrightarrow>
   calculate_hand (ph @ [c]) = Inr t \<Longrightarrow>
   display_hand (ph @ [c]) True (emit (PlayerHand t) w1) = Inr w2 \<Longrightarrow>
   21 < t \<Longrightarrow>
   calculate_hand dh = Inr td \<Longrightarrow>
   display_hand dh True (emit (DealerHand td) (emit Blank w2)) = Inr w3 \<Longrightarrow>
   player_turn cards (action # rest) ph dh gs w =
     Inr (rest, ph @ [c], True, player_bust_stats gs, emit ResultPlayerBust (emit Blank w3))"
  by (simp add: player_bust_stats_def)

lemma player_turn_hit_on:
  "upper action = ascii ''H'' \<Longrightarrow>
   deal_card cards (emit Blank (emit PromptHitStand w)) = Inr (c, w1) \<Longrightarrow>
   calculate_hand (ph @ [c]) = Inr t \<Longrightarrow>
   display_hand (ph @ [c]) True (emit (PlayerHand t) w1) = Inr w2 \<Longrightarrow>
   \<not> 21 < t \<Longrightarrow>
   player_turn cards (action # rest) ph dh gs w =
     player_turn cards rest (ph @ [c]) dh gs (emit Blank w2)"
  by simp

lemma player_turn_other:
  "upper action \<noteq> ascii ''H'' \<Longrightarrow> upper action \<noteq> ascii ''S'' \<Longrightarrow>
   player_turn cards (action # rest) ph dh gs w =
     player_turn cards rest ph dh gs (emit InvalidInput (emit Blank (emit PromptHitStand w)))"
  by simp

lemma player_turn_run:
  assumes "list_all valid_card (heap w cards)" and "list_all valid_card ph"
    and "list_all valid_card dh" and "dh \<noteq> []"
    and "player_turn cards ins ph dh gs w = Inr (ins', ph', b, gs', w')"
  shows "list_all valid_card (heap w' cards) \<and> list_all valid_card ph'
       \<and> (if b then (\<exists>t. calculate_hand ph' = Inr t \<and> 21 < t) \<and> ph' \<noteq> ph
                    \<and> gs' = player_bust_stats gs
          else gs' = gs \<and> (ph' = ph \<or> (\<exists>t. calculate_hand ph' = Inr t \<and> t \<le> 21)))
       \<and> length ph \<le> length ph'
       \<and> length ins' < length ins"
  using assms
proof (induction ins arbitrary: ph w)
  case Nil
  then show ?case by simp
next
  case (Cons action rest)
  let ?w0 = "emit Blank (emit PromptHitStand w)"
  have v0: "list_all valid_card (heap ?w0 cards)"
    using Cons.prems(1) by (simp add: emit_as_said)
  show ?case
  proof (cases "upper action = ascii ''H''")
    case True
    from deal_card_total [OF v0] obtain c w1 where
      d: "deal_card cards ?w0 = Inr (c, w1)" "valid_card c"
         "list_all valid_card (heap w1 cards)" by blast
    have v1: "list_all valid_card (ph @ [c])" using Cons.prems(2) d(2) by simp
    then obtain t where t: "calculate_hand (ph @ [c]) = Inr t"
      using calculate_hand_returns by blast
    obtain xs where xs: "display_hand (ph @ [c]) True (emit (PlayerHand t) w1)
        = Inr (said xs (emit (PlayerHand t) w1))"
      using display_hand_nonempty [of "ph @ [c]" True "emit (PlayerHand t) w1"] by auto
    let ?w2 = "said xs (emit (PlayerHand t) w1)"
    show ?thesis
    proof (cases "21 < t")
      case True
      from Cons.prems(3) obtain td where td: "calculate_hand dh = Inr td"
        using calculate_hand_returns by blast
      obtain ys where ys: "display_hand dh True (emit (DealerHand td) (emit Blank ?w2))
          = Inr (said ys (emit (DealerHand td) (emit Blank ?w2)))"
        using display_hand_nonempty [OF Cons.prems(4)] by blast
      let ?w3 = "said ys (emit (DealerHand td) (emit Blank ?w2))"
      have "player_turn cards (action # rest) ph dh gs w =
          Inr (rest, ph @ [c], True, player_bust_stats gs, emit ResultPlayerBust (emit Blank ?w3))"
        using \<open>upper action = ascii ''H''\<close> d(1) t xs True td ys by (rule player_turn_hit_bust)
      with Cons.prems(5) have eq: "ins' = rest" "ph' = ph @ [c]" "b" "gs' = player_bust_stats gs"
        "w' = emit ResultPlayerBust (emit Blank ?w3)" by simp_all
      have "list_all valid_card (heap w' cards)"
        using d(3) by (simp add: eq(5) emit_as_said)
      with eq v1 t True show ?thesis by simp
    next
      case False
      have "player_turn cards (action # rest) ph dh gs w =
          player_turn cards rest (ph @ [c]) dh gs (emit Blank ?w2)"
        using True d(1) t xs False by (rule player_turn_hit_on)
      with Cons.prems(5) have run:
        "player_turn cards rest (ph @ [c]) dh gs (emit Blank ?w2) = Inr (ins', ph', b, gs', w')"
        by simp
      have v2: "list_all valid_card (heap (emit Blank ?w2) cards)"
        using d(3) by (simp add: emit_as_said)
      from Cons.IH [OF v2 v1 Cons.prems(3,4) run] have IH:
        "list_all valid_card (heap w' cards)" "list_all valid_card ph'"
        "if b then (\<exists>t. calculate_hand ph' = Inr t \<and> 21 < t) \<and> ph' \<noteq> ph @ [c]
                    \<and> gs' = player_bust_stats gs
         else gs' = gs \<and> (ph' = ph @ [c] \<or> (\<exists>t. calculate_hand ph' = Inr t \<and> t \<le> 21))"
        "length (ph @ [c]) \<le> length ph'" "length ins' < length rest"
        by simp_all
      from IH(4) have ne: "ph' \<noteq> ph" by auto
      from IH(3) t False ne have
        "if b then (\<exists>t. calculate_hand ph' = Inr t \<and> 21 < t) \<and> ph' \<noteq> ph
                    \<and> gs' = player_bust_stats gs
         else gs' = gs \<and> (ph' = ph \<or> (\<exists>t. calculate_hand ph' = Inr t \<and> t \<le> 21))"
        by (cases b) auto
      with IH(1,2,4,5) show ?thesis by simp
    qed
  next
    case False
    show ?thesis
    proof (cases "upper action = ascii ''S''")
      case True
      with False Cons.prems(5) have "ins' = rest" "ph' = ph" "\<not> b" "gs' = gs" "w' = ?w0"
        by simp_all
      with v0 Cons.prems(2) show ?thesis by simp
    next
      case S: False
      have "player_turn cards (action # rest) ph dh gs w =
          player_turn cards rest ph dh gs (emit InvalidInput ?w0)"
        using False S by (rule player_turn_other)
      with Cons.prems(5) have run:
        "player_turn cards rest ph dh gs (emit InvalidInput ?w0) = Inr (ins', ph', b, gs', w')"
        by simp
      have v2: "list_all valid_card (heap (emit InvalidInput ?w0) cards)"
        using Cons.prems(1) by (simp add: emit_as_said)
      from Cons.IH [OF v2 Cons.prems(2,3,4) run] show ?thesis by simp
    qed
  qed
qed

subsection \<open>The round\<close>

lemma dealer_turn_run:
  assumes "list_all valid_card (heap w cards)" and "list_all valid_card dh" and "dh \<noteq> []"
  shows "\<exists>drawn gs' w' t'.
           dealer_turn cards dh gs w = Inr (dh @ drawn, gs', w')
         \<and> (\<forall>n<length drawn. \<exists>t. calculate_hand (dh @ take n drawn) = Inr t \<and> t < 17)
         \<and> calculate_hand (dh @ drawn) = Inr t' \<and> 17 \<le> t'
         \<and> gs' = (if drawn \<noteq> [] \<and> 21 < t' then dealer_bust_stats gs else gs)
         \<and> list_all valid_card drawn
         \<and> list_all valid_card (heap w' cards)"
proof -
  from assms(2) obtain t where t: "calculate_hand dh = Inr t"
    using calculate_hand_returns by blast
  obtain xs where xs: "display_hand dh True (emit (DealerHand t) w)
      = Inr (said xs (emit (DealerHand t) w))"
    using display_hand_nonempty [OF assms(3)] by blast
  let ?w1 = "emit Blank (said xs (emit (DealerHand t) w))"
  have eq: "dealer_turn cards dh gs w = dealer_loop cards dh gs ?w1"
    by (simp add: dealer_turn_def t xs)
  have "list_all valid_card (heap ?w1 cards)"
    using assms(1) by (simp add: emit_as_said)
  from dealer_loop_run [OF this assms(2), of gs] show ?thesis
    unfolding eq by blast
qed

lemma check_result_round:
  "tp \<le> 21 \<Longrightarrow>
   fst (check_result tp td (if 21 < td then dealer_bust_stats g else g) w) =
     (if 21 < td then dealer_bust_stats g
      else if tp = td then g\<lparr>total_ties := total_ties g + 1\<rparr>
      else if td < tp then g\<lparr>total_wins := total_wins g + 1\<rparr>
      else g\<lparr>total_losses := total_losses g + 1\<rparr>)"
  by (simp add: check_result_def)

lemma check_result_heap: "heap (snd (check_result p d gs w)) = heap w"
  by (simp add: check_result_def emit_as_said)

lemma check_result_nothing:
  "p \<noteq> d \<Longrightarrow> \<not> (d < p \<and> p \<le> 21) \<Longrightarrow> \<not> (p < d \<and> d \<le> 21) \<Longrightarrow>
     check_result p d gs w = (gs, w)"
  by (auto simp: check_result_def)

lemma play_round_run:
  assumes v: "list_all valid_card (heap w cards)"
    and run: "play_round cards ins gs w = Inr r"
  shows "\<exists>p1 p2 d1 d2 w1 w2 gs2 w3.
      initial_deal 2 cards [] [] w = Inr ([p1, p2], [d1, d2], w1)
    \<and> first_hand [p1, p2] [d1, d2] w1 = Inr w2
    \<and> player_turn cards ins [p1, p2] [d1, d2] (started gs) w2
        = Inr (inputs_left r, player_hand r, bust r, gs2, w3)
    \<and> length (inputs_left r) < length ins
    \<and> list_all valid_card (heap (world_after r) cards)
    \<and> (if bust r then
          (\<exists>t. calculate_hand (player_hand r) = Inr t \<and> 21 < t)
        \<and> dealer_hand r = [d1, d2]
        \<and> game_stats r = player_bust_stats (started gs)
        \<and> world_after r = save_game_stats (game_stats r) w3
        else
          (\<exists>tp td drawn.
              calculate_hand (player_hand r) = Inr tp \<and> tp \<le> 21
            \<and> dealer_hand r = [d1, d2] @ drawn
            \<and> (\<forall>n<length drawn. \<exists>t. calculate_hand ([d1, d2] @ take n drawn) = Inr t \<and> t < 17)
            \<and> calculate_hand (dealer_hand r) = Inr td \<and> 17 \<le> td
            \<and> game_stats r =
                (if 21 < td then dealer_bust_stats (started gs)
                 else if tp = td then (started gs)\<lparr>total_ties := total_ties gs + 1\<rparr>
                 else if td < tp then (started gs)\<lparr>total_wins := total_wins gs + 1\<rparr>
                 else (started gs)\<lparr>total_losses := total_losses gs + 1\<rparr>)))"
proof -
  from initial_deal_two [OF v] obtain p1 p2 d1 d2 w1 where
    i: "initial_deal 2 cards [] [] w = Inr ([p1, p2], [d1, d2], w1)"
    and vc: "valid_card p1" "valid_card p2" "valid_card d1" "valid_card d2"
    and v1: "list_all valid_card (heap w1 cards)" by blast
  let ?ph = "[p1, p2]" and ?dh = "[d1, d2]"
  have vph: "list_all valid_card ?ph" and vdh: "list_all valid_card ?dh" using vc by simp_all
  from first_hand_total [of ?ph ?dh w1] vph obtain xs where
    f: "first_hand ?ph ?dh w1 = Inr (said xs w1)" by auto
  let ?w2 = "said xs w1"
  have v2: "list_all valid_card (heap ?w2 cards)" using v1 by simp
  let ?rest = "\<lambda>(ins', ph', bust', gs2, w3).
      and_then (if \<not> bust' then dealer_turn cards ?dh gs2 w3 else Inr (?dh, gs2, w3))
        (\<lambda>(dh', gs3, w4).
      and_then (calculate_hand ph') (\<lambda>player_total.
      and_then (calculate_hand dh') (\<lambda>dealer_total.
      case check_result player_total dealer_total gs3 w4 of
        (gs4, w5) \<Rightarrow>
          Inr \<lparr>inputs_left = ins', player_hand = ph', dealer_hand = dh', bust = bust',
               game_stats = gs4, world_after = save_game_stats gs4 w5\<rparr>)))"
  have pr: "play_round cards ins gs w =
      and_then (player_turn cards ins ?ph ?dh (started gs) ?w2) ?rest"
    by (simp add: play_round_def Let_def i f started_def)
  from run pr obtain x where x: "player_turn cards ins ?ph ?dh (started gs) ?w2 = Inr x"
    by (cases "player_turn cards ins ?ph ?dh (started gs) ?w2") simp_all
  obtain ins' ph' b gs2 w3 where xe: "x = (ins', ph', b, gs2, w3)" by (cases x) auto
  note pt = x [unfolded xe]
  from player_turn_run [OF v2 vph vdh _ pt] have ptr:
    "list_all valid_card (heap w3 cards)" "list_all valid_card ph'"
    "if b then (\<exists>t. calculate_hand ph' = Inr t \<and> 21 < t) \<and> ph' \<noteq> ?ph
                \<and> gs2 = player_bust_stats (started gs)
     else gs2 = started gs \<and> (ph' = ?ph \<or> (\<exists>t. calculate_hand ph' = Inr t \<and> t \<le> 21))"
    "length ins' < length ins" by simp_all
  from vdh obtain td0 where td0: "calculate_hand ?dh = Inr td0"
    using calculate_hand_returns by blast
  have td0_le: "td0 \<le> 21" using vc(3,4) td0 by (rule two_cards_at_most_21)
  show ?thesis
  proof (cases b)
    case True
    with ptr(3) obtain t where t: "calculate_hand ph' = Inr t" "21 < t"
      and gs2: "gs2 = player_bust_stats (started gs)" by auto
    have "check_result t td0 gs2 w3 = (gs2, w3)"
      using t(2) td0_le by (intro check_result_nothing) simp_all
    with run have r: "r = \<lparr>inputs_left = ins', player_hand = ph', dealer_hand = ?dh, bust = True,
               game_stats = gs2, world_after = save_game_stats gs2 w3\<rparr>"
      by (simp add: pr pt True t(1) td0)
    have "list_all valid_card (heap (world_after r) cards)"
      using ptr(1) by (simp add: r save_game_stats_def)
    then show ?thesis
      apply -
      apply (rule exI [of _ p1], rule exI [of _ p2], rule exI [of _ d1], rule exI [of _ d2],
          rule exI [of _ w1], rule exI [of _ ?w2], rule exI [of _ gs2], rule exI [of _ w3])
      using i f pt True t gs2 ptr(4) apply (simp add: r)
      done
  next
    case False
    with ptr(3) have gs2: "gs2 = started gs"
      and ph': "ph' = ?ph \<or> (\<exists>t. calculate_hand ph' = Inr t \<and> t \<le> 21)" by simp_all
    from ptr(2) obtain tp where tp: "calculate_hand ph' = Inr tp"
      using calculate_hand_returns by blast
    have tp_le: "tp \<le> 21"
      using ph' tp two_cards_at_most_21 [OF vc(1,2)] by auto
    from dealer_turn_run [OF ptr(1) vdh, of gs2] obtain drawn gs3 w4 td where dt:
      "dealer_turn cards ?dh gs2 w3 = Inr (?dh @ drawn, gs3, w4)"
      "\<forall>n<length drawn. \<exists>t. calculate_hand (?dh @ take n drawn) = Inr t \<and> t < 17"
      "calculate_hand (?dh @ drawn) = Inr td" "17 \<le> td"
      "gs3 = (if drawn \<noteq> [] \<and> 21 < td then dealer_bust_stats gs2 else gs2)"
      "list_all valid_card (heap w4 cards)" by auto
    have g3: "gs3 = (if 21 < td then dealer_bust_stats gs2 else gs2)"
    proof (cases "drawn = []")
      case True
      with dt(3) td0 td0_le have "td \<le> 21" by simp
      with dt(5) True show ?thesis by simp
    next
      case False
      with dt(5) show ?thesis by simp
    qed
    define gs4 where "gs4 = fst (check_result tp td gs3 w4)"
    define w5 where "w5 = snd (check_result tp td gs3 w4)"
    have c: "check_result tp td gs3 w4 = (gs4, w5)" by (simp add: gs4_def w5_def)
    have w5: "heap w5 = heap w4"
      unfolding w5_def by (rule check_result_heap)
    have "gs4 = (if 21 < td then dealer_bust_stats gs2
                 else if tp = td then gs2\<lparr>total_ties := total_ties gs2 + 1\<rparr>
                 else if td < tp then gs2\<lparr>total_wins := total_wins gs2 + 1\<rparr>
                 else gs2\<lparr>total_losses := total_losses gs2 + 1\<rparr>)"
      unfolding gs4_def g3 using tp_le by (rule check_result_round)
    then have g4: "gs4 = (if 21 < td then dealer_bust_stats (started gs)
                 else if tp = td then (started gs)\<lparr>total_ties := total_ties gs + 1\<rparr>
                 else if td < tp then (started gs)\<lparr>total_wins := total_wins gs + 1\<rparr>
                 else (started gs)\<lparr>total_losses := total_losses gs + 1\<rparr>)"
      unfolding gs2 by (simp add: started_def)
    from run have r: "r = \<lparr>inputs_left = ins', player_hand = ph', dealer_hand = ?dh @ drawn,
          bust = False, game_stats = gs4, world_after = save_game_stats gs4 w5\<rparr>"
      using False dt(3) by (simp add: pr pt dt(1) tp c)
    have sel: "inputs_left r = ins'" "player_hand r = ph'" "dealer_hand r = [d1, d2] @ drawn"
      "\<not> bust r" "game_stats r = gs4" "world_after r = save_game_stats gs4 w5"
      by (simp_all add: r)
    have vr: "list_all valid_card (heap (world_after r) cards)"
      unfolding sel using dt(6) w5 by (simp add: save_game_stats_def)
    have fin: "\<exists>tp td drawn'.
              calculate_hand (player_hand r) = Inr tp \<and> tp \<le> 21
            \<and> dealer_hand r = [d1, d2] @ drawn'
            \<and> (\<forall>n<length drawn'. \<exists>t. calculate_hand ([d1, d2] @ take n drawn') = Inr t \<and> t < 17)
            \<and> calculate_hand (dealer_hand r) = Inr td \<and> 17 \<le> td
            \<and> game_stats r =
                (if 21 < td then dealer_bust_stats (started gs)
                 else if tp = td then (started gs)\<lparr>total_ties := total_ties gs + 1\<rparr>
                 else if td < tp then (started gs)\<lparr>total_wins := total_wins gs + 1\<rparr>
                 else (started gs)\<lparr>total_losses := total_losses gs + 1\<rparr>)"
      unfolding sel using tp tp_le dt(2,3,4) g4 by blast
    have pt': "player_turn cards ins [p1, p2] [d1, d2] (started gs) (said xs w1)
        = Inr (inputs_left r, player_hand r, bust r, gs2, w3)"
      using pt False sel by simp
    have len: "length (inputs_left r) < length ins" using ptr(4) sel by simp
    show ?thesis
      apply (rule exI [of _ p1], rule exI [of _ p2], rule exI [of _ d1], rule exI [of _ d2],
          rule exI [of _ w1], rule exI [of _ ?w2], rule exI [of _ gs2], rule exI [of _ w3])
      apply (intro conjI)
           apply (rule i)
          apply (rule f)
         apply (rule pt')
        apply (rule len)
       apply (rule vr)
      apply (simp only: sel(4) if_False)
      apply (rule fin)
      done
  qed
qed

subsection \<open>Evaluation on examples\<close>

lemma ace_loop_stop: "tot \<le> 21 \<or> n = 0 \<Longrightarrow> ace_loop tot n = tot"
  by (subst ace_loop.simps) auto

lemma ace_loop_step: "21 < tot \<Longrightarrow> n \<noteq> 0 \<Longrightarrow> ace_loop tot n = ace_loop (tot - 10) (n - 1)"
  by (subst ace_loop.simps) simp

lemmas run_simps =
  play_round_def table_def no_games_def numeral_2_eq_2 deal_card_def list_pop_def
  first_hand_def display_hand_def emit_def upper_def upper_char_def ascii_def dealer_turn_def
  dealer_loop.simps check_result_def save_game_stats_def Let_def
  calculate_hand_def card_values_def ace_loop_stop ace_loop_step valid_card_def ranks_def

subsection \<open>Every round of the game\<close>

lemma play_again_run:
  "play_again ins w = Inr (ins', w') \<Longrightarrow> heap w' = heap w"
proof (induction ins arbitrary: w)
  case Nil
  then show ?case by simp
next
  case (Cons answer rest)
  show ?case
  proof (cases "upper answer = ascii ''P''")
    case True
    with Cons.prems show ?thesis by (auto simp: emit_as_said)
  next
    case False
    with Cons.prems have "upper answer \<noteq> ascii ''Q''" by (auto split: if_splits)
    with False Cons.prems have "play_again rest (emit InvalidInput (emit PromptPlayAgain w)) = Inr (ins', w')"
      by simp
    from Cons.IH [OF this] show ?thesis by (simp add: emit_as_said)
  qed
qed

lemma play_round_outcome:
  assumes "list_all valid_card (heap w cards)" and "play_round cards ins gs w = Inr r"
  shows "one_outcome gs (game_stats r)"
proof (cases "bust r")
  case True
  with play_round_run [OF assms] have "game_stats r = player_bust_stats (started gs)"
    by auto
  then show ?thesis
    by (simp add: one_outcome_def player_bust_stats_def started_def)
next
  case False
  with play_round_run [OF assms] obtain tp td :: int where
    "game_stats r =
        (if 21 < td then dealer_bust_stats (started gs)
         else if tp = td then (started gs)\<lparr>total_ties := total_ties gs + 1\<rparr>
         else if td < tp then (started gs)\<lparr>total_wins := total_wins gs + 1\<rparr>
         else (started gs)\<lparr>total_losses := total_losses gs + 1\<rparr>)"
    by auto
  then show ?thesis
    by (simp add: one_outcome_def dealer_bust_stats_def started_def)
qed

lemma play_round_deck:
  assumes "list_all valid_card (heap w cards)" and "play_round cards ins gs w = Inr r"
  shows "list_all valid_card (heap (world_after r) cards)"
  using play_round_run [OF assms] by auto

lemma game_loop_rounds:
  "list_all valid_card (heap w cards) \<Longrightarrow> rounds_from gs (fst (game_loop cards ins gs w))"
proof (induction cards ins gs w rule: game_loop.induct)
  case (1 cards ins gs w)
  show ?case
  proof (cases "play_round cards ins gs w")
    case (Inl e)
    then show ?thesis by (subst game_loop.simps) simp
  next
    case (Inr r)
    note o = play_round_outcome [OF "1.prems" Inr]
    note d = play_round_deck [OF "1.prems" Inr]
    show ?thesis
    proof (cases "play_again (inputs_left r) (world_after r)")
      case (Inl e)
      with Inr o show ?thesis by (subst game_loop.simps) simp
    next
      case again: (Inr x)
      obtain ins' w' where x: "x = (ins', w')" by (cases x)
      have "heap w' = heap (world_after r)"
        using again [unfolded x] by (rule play_again_run)
      with d have "list_all valid_card (heap w' cards)" by simp
      from "1.IH" [OF Inr again x [symmetric] this]
      have "rounds_from (game_stats r) (fst (game_loop cards ins' (game_stats r) w'))" .
      with Inr again x o show ?thesis
        by (subst game_loop.simps) (simp add: case_prod_beta)
    qed
  qed
qed

lemma main_rounds: "rounds_from (load_game_stats w) (fst (main ins w))"
proof -
  let ?w1 = "show_welcome w"
  let ?gs = "load_game_stats ?w1"
  let ?w2 = "emit LetsPlay (display_game_stats ?gs ?w1)"
  let ?cards = "fresh ?w2"
  let ?w3 = "?w2\<lparr>heap := (heap ?w2)(?cards := deck_cards), fresh := Suc ?cards\<rparr>"
  have c: "create_deck ?w2 = (?cards, ?w3)" by (simp add: create_deck_def new_list_def)
  have "set (heap (shuffle_deck ?cards ?w3) ?cards) = set deck_cards"
    using shuffle_deck_lists(1) [of ?cards ?w3] by (auto dest: mset_eq_setD)
  then have v: "list_all valid_card (heap (shuffle_deck ?cards ?w3) ?cards)"
    using deck_cards_valid by (simp add: list_all_iff)
  have g: "?gs = load_game_stats w"
    by (simp add: load_game_stats_def show_welcome_def emit_def)
  have "main ins w = game_loop ?cards ins ?gs (shuffle_deck ?cards ?w3)"
    unfolding main_def Let_def c by simp
  with game_loop_rounds [OF v, of ?gs ins] g show ?thesis by simp
qed

subsection \<open>The accepted tokens\<close>

lemma ascii_letters:
  "ascii ''H'' = [72]" "ascii ''h'' = [104]" "ascii ''S'' = [83]" "ascii ''s'' = [115]"
  "ascii ''P'' = [80]" "ascii ''p'' = [112]" "ascii ''Q'' = [81]" "ascii ''q'' = [113]"
  by (simp_all add: ascii_def)

lemma upper_char_length: "1 \<le> length (upper_char c)"
  by (simp add: upper_char_def)

lemma upper_length: "length a \<le> length (upper a)"
proof (induction a)
  case Nil
  show ?case by simp
next
  case (Cons c a)
  have "upper (c # a) = upper_char c @ upper a" by (simp add: upper_def)
  with Cons upper_char_length [of c] show ?case by simp
qed

lemma upper_one: "upper a = [x] \<longleftrightarrow> (\<exists>c. a = [c] \<and> upper_char c = [x])"
proof
  assume u: "upper a = [x]"
  with upper_length [of a] have "length a \<le> 1" by simp
  then have "a = [] \<or> (\<exists>c. a = [c])" by (cases a) auto
  with u show "\<exists>c. a = [c] \<and> upper_char c = [x]" by (auto simp: upper_def)
next
  assume "\<exists>c. a = [c] \<and> upper_char c = [x]"
  then show "upper a = [x]" by (auto simp: upper_def)
qed

lemma upper_char_H: "upper_char c = [72] \<longleftrightarrow> c = 104 \<or> c = 72"
  by (auto simp: upper_char_def split: if_splits)

lemma upper_char_S: "upper_char c = [83] \<longleftrightarrow> c = 115 \<or> c = 83 \<or> c = 383"
  by (auto simp: upper_char_def split: if_splits)

lemma upper_char_P: "upper_char c = [80] \<longleftrightarrow> c = 112 \<or> c = 80"
  by (auto simp: upper_char_def split: if_splits)

lemma upper_char_Q: "upper_char c = [81] \<longleftrightarrow> c = 113 \<or> c = 81"
  by (auto simp: upper_char_def split: if_splits)

text \<open>
  The tokens that the two prompts take: at hit or stand, besides the four letters, the
  long s.
\<close>

lemma upper_accepted:
  "upper a = ascii ''H'' \<longleftrightarrow> a = ascii ''h'' \<or> a = ascii ''H''"
  "upper a = ascii ''S'' \<longleftrightarrow> a = ascii ''s'' \<or> a = ascii ''S'' \<or> a = long_s"
  "upper a = ascii ''P'' \<longleftrightarrow> a = ascii ''p'' \<or> a = ascii ''P''"
  "upper a = ascii ''Q'' \<longleftrightarrow> a = ascii ''q'' \<or> a = ascii ''Q''"
  by (auto simp: ascii_letters long_s_def upper_one upper_char_H upper_char_S upper_char_P
      upper_char_Q)

section \<open>The claims\<close>

text \<open>
  C3. For every hand of cards of the thirteen ranks, \<open>calculate_hand\<close> returns the sum of
  the card values (the number for 2 to 10, 10 for J, Q and K, 11 for an Ace) less 10 for
  each of \<open>k\<close> demoted Aces: \<open>k\<close> is at most the number of Aces (an Ace is demoted at most
  once), an Ace is demoted only while the total is above 21 (the total before the last
  demotion was above 21), and a result above 21 means that every Ace was demoted; that
  result is returned as it is. Two Aces give 12, King and Ace 21, and 10, 9, 5 give 24.
\<close>

theorem calculate_hand_total:
  "(list_all valid_card hand \<longrightarrow>
      (\<exists>k. calculate_hand hand = Inr (face_sum hand - 10 * int k)
         \<and> k \<le> num_aces_in hand
         \<and> (21 < face_sum hand - 10 * int k \<longrightarrow> k = num_aces_in hand)
         \<and> (0 < k \<longrightarrow> 21 < face_sum hand - 10 * int k + 10)))
   \<and> calculate_hand [Card s1 ''A'', Card s2 ''A''] = Inr 12
   \<and> calculate_hand [Card s1 ''K'', Card s2 ''A''] = Inr 21
   \<and> calculate_hand [Card s1 ''10'', Card s2 ''9'', Card s3 ''5''] = Inr 24"
proof (intro conjI impI)
  assume v: "list_all valid_card hand"
  from ace_loop_demotions [of "face_sum hand" "num_aces_in hand"]
  show "\<exists>k. calculate_hand hand = Inr (face_sum hand - 10 * int k)
         \<and> k \<le> num_aces_in hand
         \<and> (21 < face_sum hand - 10 * int k \<longrightarrow> k = num_aces_in hand)
         \<and> (0 < k \<longrightarrow> 21 < face_sum hand - 10 * int k + 10)"
    by (simp add: calculate_hand_valid [OF v])
next
  show "calculate_hand [Card s1 ''A'', Card s2 ''A''] = Inr 12"
    by (simp add: calculate_hand_def card_values_def) (simp add: ace_loop.simps)
next
  show "calculate_hand [Card s1 ''K'', Card s2 ''A''] = Inr 21"
    by (simp add: calculate_hand_def card_values_def) (simp add: ace_loop.simps)
next
  show "calculate_hand [Card s1 ''10'', Card s2 ''9'', Card s3 ''5''] = Inr 24"
    by (simp add: calculate_hand_def card_values_def) (simp add: ace_loop.simps)
qed

theorem calculate_hand_total_witness:
  "list_all valid_card
     [Card ''Hearts'' ''A'', Card ''Spades'' ''A'', Card ''Clubs'' ''K'', Card ''Hearts'' ''Q'']
   \<and> calculate_hand
     [Card ''Hearts'' ''A'', Card ''Spades'' ''A'', Card ''Clubs'' ''K'', Card ''Hearts'' ''Q'']
     = Inr 22"
proof -
  let ?h = "[Card ''Hearts'' ''A'', Card ''Spades'' ''A'', Card ''Clubs'' ''K'', Card ''Hearts'' ''Q'']"
  have v: "list_all valid_card ?h" by (simp add: valid_card_def ranks_def)
  have f: "face_sum ?h = 42" by (simp add: face_sum_def face_value_def)
  have a: "num_aces_in ?h = 2" by (simp add: num_aces_in_def)
  from calculate_hand_total [of ?h] v obtain k where
    k: "calculate_hand ?h = Inr (face_sum ?h - 10 * int k)" "k \<le> num_aces_in ?h"
       "21 < face_sum ?h - 10 * int k \<longrightarrow> k = num_aces_in ?h"
    by blast
  from k(2,3) have "k = 2" unfolding f a by (cases "k = 0"; cases "k = 1"; simp)
  with k(1) f v show ?thesis by simp
qed

text \<open>C8. The empty hand has the total 0: \<open>calculate_hand\<close> returns, and returns 0.\<close>

theorem calculate_hand_empty: "calculate_hand [] = Inr 0"
  by (simp add: calculate_hand_def ace_loop.simps)

text \<open>
  C9. Two hands with the same cards in another order, or more generally with the same
  multiset of ranks whatever the suits, have the same total: one returns \<open>t\<close> exactly when
  the other does, and both return when the cards are of the thirteen ranks.
\<close>

theorem calculate_hand_order_suit_independent:
  assumes "mset h1 = mset h2 \<or> mset (map rank h1) = mset (map rank h2)"
  shows "(\<forall>t. calculate_hand h1 = Inr t \<longleftrightarrow> calculate_hand h2 = Inr t)
       \<and> (list_all valid_card h1 \<longrightarrow> (\<exists>t. calculate_hand h1 = Inr t \<and> calculate_hand h2 = Inr t))"
proof -
  have m: "mset (map rank h1) = mset (map rank h2)"
    using assms by (auto dest: arg_cong [where f = "image_mset rank"])
  have eq: "\<forall>t. calculate_hand h1 = Inr t \<longleftrightarrow> calculate_hand h2 = Inr t"
    using calculate_hand_ranks [OF m] calculate_hand_ranks [OF m [symmetric]] by blast
  moreover have "list_all valid_card h1 \<longrightarrow> (\<exists>t. calculate_hand h1 = Inr t \<and> calculate_hand h2 = Inr t)"
    using eq calculate_hand_valid [of h1] by blast
  ultimately show ?thesis by blast
qed

theorem calculate_hand_order_suit_independent_witness:
  "calculate_hand [Card ''Hearts'' ''A'', Card ''Spades'' ''7'', Card ''Clubs'' ''K''] = Inr 18
   \<and> calculate_hand [Card ''Diamonds'' ''K'', Card ''Hearts'' ''A'', Card ''Hearts'' ''7''] = Inr 18"
proof -
  let ?h1 = "[Card ''Hearts'' ''A'', Card ''Spades'' ''7'', Card ''Clubs'' ''K'']"
  let ?h2 = "[Card ''Diamonds'' ''K'', Card ''Hearts'' ''A'', Card ''Hearts'' ''7'']"
  have m: "mset ?h1 = mset ?h2 \<or> mset (map rank ?h1) = mset (map rank ?h2)" by simp
  have c: "calculate_hand ?h1 = Inr 18"
    by (simp add: calculate_hand_def card_values_def) (simp add: ace_loop.simps)
  with calculate_hand_order_suit_independent [OF m] show ?thesis by blast
qed

text \<open>
  C10. Dealing from a deck that is not empty returns its last card; the deck afterwards
  is the original without that card, one shorter and in the original order. The world
  afterwards is the world before with that one list replaced: no other list, and nothing
  else, changes.
\<close>

theorem deal_card_nonempty:
  assumes "heap w deck \<noteq> []"
  shows "\<exists>w'. deal_card deck w = Inr (last (heap w deck), w')
           \<and> heap w' deck = take (length (heap w deck) - 1) (heap w deck)
           \<and> length (heap w' deck) = length (heap w deck) - 1
           \<and> heap w deck = heap w' deck @ [last (heap w deck)]
           \<and> w' = w\<lparr>heap := (heap w)(deck := heap w' deck)\<rparr>"
proof -
  have "heap w deck = take (length (heap w deck) - 1) (heap w deck) @ [last (heap w deck)]"
    using assms by (metis append_butlast_last_id butlast_conv_take)
  then show ?thesis
    using assms by (simp add: deal_card_def list_pop_nonempty butlast_conv_take)
qed

theorem deal_card_nonempty_witness:
  "\<exists>w'. deal_card 0 (table [Card ''Hearts'' ''2'', Card ''Clubs'' ''K'', Card ''Spades'' ''A''])
         = Inr (Card ''Spades'' ''A'', w')
       \<and> heap w' 0 = [Card ''Hearts'' ''2'', Card ''Clubs'' ''K'']"
proof -
  let ?w = "table [Card ''Hearts'' ''2'', Card ''Clubs'' ''K'', Card ''Spades'' ''A'']"
  have h: "heap ?w 0 = [Card ''Hearts'' ''2'', Card ''Clubs'' ''K'', Card ''Spades'' ''A'']"
    by (simp add: table_def)
  then have ne: "heap ?w 0 \<noteq> []" by simp
  from deal_card_nonempty [OF ne] show ?thesis
    unfolding h by auto
qed

text \<open>
  C6. The list that \<open>create_deck\<close> returns has 52 cards, no card twice, and holds exactly
  the cards of the four suits and thirteen ranks. \<open>shuffle_deck\<close> keeps the multiset of
  the cards of the list it shuffles, whatever the generator draws.
\<close>

theorem create_and_shuffle_deck:
  "(case create_deck w of
      (deck, w') \<Rightarrow>
        length (heap w' deck) = 52 \<and> distinct (heap w' deck)
        \<and> set (heap w' deck) = {Card s r | s r. s \<in> set suits \<and> r \<in> set ranks}
        \<and> length suits = 4 \<and> distinct suits \<and> length ranks = 13 \<and> distinct ranks)
   \<and> mset (heap (shuffle_deck d w) d) = mset (heap w d)"
  by (simp add: create_deck_def new_list_def deck_cards_length deck_cards_distinct
      deck_cards_set shuffle_deck_lists(1)) (simp add: suits_def ranks_def)

text \<open>
  C1. \<open>deal_card\<close> on an empty deck: the caller holds the address \<open>cards\<close> of an empty
  list. The call returns one of the 52 cards, drawn from a new shuffled deck that
  afterwards holds 51 cards at a new address; the list at \<open>cards\<close>, which is what the
  caller still holds, is empty as before.
\<close>

theorem deal_card_empty_deck:
  "case new_list [] w of
     (cards, w0) \<Rightarrow>
       \<exists>c w'. deal_card cards w0 = Inr (c, w')
         \<and> c \<in> set deck_cards
         \<and> heap w' cards = []
         \<and> length (heap w' (fresh w0)) = 51"
proof -
  let ?cards = "fresh w"
  let ?w0 = "w\<lparr>heap := (heap w)(fresh w := []), fresh := Suc (fresh w)\<rparr>"
  let ?d = "Suc (fresh w)"
  let ?w1 = "?w0\<lparr>heap := (heap ?w0)(?d := deck_cards), fresh := Suc ?d\<rparr>"
  let ?w2 = "shuffle_deck ?d ?w1"
  have c: "create_deck ?w0 = (?d, ?w1)" by (simp add: create_deck_def new_list_def)
  have l1: "heap ?w1 ?d = deck_cards" "heap ?w1 ?cards = []"
    by simp_all
  have m: "mset (heap ?w2 ?d) = mset deck_cards"
    using shuffle_deck_lists(1) [of ?d ?w1] l1 by simp
  then have len: "length (heap ?w2 ?d) = 52"
    using deck_cards_length by (metis size_mset)
  then have ne: "heap ?w2 ?d \<noteq> []" by auto
  have s: "set (heap ?w2 ?d) = set deck_cards" using m by (rule mset_eq_setD)
  have keep: "heap ?w2 ?cards = []"
    using shuffle_deck_lists(2) [of ?cards ?d ?w1] l1 by simp
  have "deal_card ?cards ?w0 = list_pop ?d ?w2"
    by (simp add: deal_card_def create_deck_def new_list_def)
  also have "\<dots> = Inr (last (heap ?w2 ?d), ?w2\<lparr>heap := (heap ?w2)(?d := butlast (heap ?w2 ?d))\<rparr>)"
    using ne by (rule list_pop_nonempty)
  finally have "deal_card ?cards ?w0 =
      Inr (last (heap ?w2 ?d), ?w2\<lparr>heap := (heap ?w2)(?d := butlast (heap ?w2 ?d))\<rparr>)" .
  moreover have "last (heap ?w2 ?d) \<in> set deck_cards"
    using ne s last_in_set by blast
  ultimately show ?thesis
    using keep len by (simp add: new_list_def)
qed

text \<open>
  C7. At the play-again prompt every token other than P, p, Q and q, and at the
  hit-or-stand prompt every token other than H, h, S, s and the long s (code point 383,
  whose upper-case form in Python is S), is answered with the rejection message and the
  prompt again: after any number of such tokens the program goes on exactly as it would
  have without them, in a world that differs only by the printed prompts and rejections
  (same deck, generator, hands and counters), and no error is raised by them. The long
  s itself is outside H, h, S, s and is taken as a stand: the player's turn ends, with
  no rejection.
\<close>

theorem invalid_input_asks_again:
  "((\<forall>a\<in>set bad. a \<notin> {ascii ''H'', ascii ''h'', ascii ''S'', ascii ''s'', long_s}) \<longrightarrow>
      player_turn cards (bad @ rest) ph dh gs w =
      player_turn cards rest ph dh gs
        (said (concat (map (\<lambda>a. [PromptHitStand, Blank, InvalidInput]) bad)) w))
   \<and> ((\<forall>a\<in>set bad. a \<notin> {ascii ''P'', ascii ''p'', ascii ''Q'', ascii ''q''}) \<longrightarrow>
      play_again (bad @ rest) w =
      play_again rest (said (concat (map (\<lambda>a. [PromptPlayAgain, InvalidInput]) bad)) w))"
  using player_turn_invalid_many [of bad cards rest ph dh gs w]
    play_again_invalid_many [of bad rest w]
  by (simp add: upper_accepted)

theorem invalid_input_asks_again_witness:
  "player_turn 0 [ascii ''x'', ascii ''hit'', [], [223], ascii ''s''] [] [] no_games (table [])
     = Inr ([], [], False, no_games,
            said [PromptHitStand, Blank, InvalidInput, PromptHitStand, Blank, InvalidInput,
                  PromptHitStand, Blank, InvalidInput, PromptHitStand, Blank, InvalidInput,
                  PromptHitStand, Blank] (table []))
   \<and> play_again [ascii ''y'', long_s, ascii ''p'', ascii ''q''] (table [])
     = Inr ([ascii ''q''],
            said [PromptPlayAgain, InvalidInput, PromptPlayAgain, InvalidInput,
                  PromptPlayAgain, Blank] (table []))"
proof -
  let ?bad = "[ascii ''x'', ascii ''hit'', [], [223]]"
  let ?bad' = "[ascii ''y'', long_s]"
  have u: "\<forall>a\<in>set ?bad. a \<notin> {ascii ''H'', ascii ''h'', ascii ''S'', ascii ''s'', long_s}"
    by (simp add: ascii_def long_s_def)
  have v: "\<forall>a\<in>set ?bad'. a \<notin> {ascii ''P'', ascii ''p'', ascii ''Q'', ascii ''q''}"
    by (simp add: ascii_def long_s_def)
  have "player_turn 0 (?bad @ [ascii ''s'']) [] [] no_games (table []) =
      player_turn 0 [ascii ''s''] [] [] no_games
        (said (concat (map (\<lambda>a. [PromptHitStand, Blank, InvalidInput]) ?bad)) (table []))"
    using invalid_input_asks_again [of ?bad 0 "[ascii ''s'']" "[]" "[]" no_games "table []"] u
    by blast
  moreover have "play_again (?bad' @ [ascii ''p'', ascii ''q'']) (table []) =
      play_again [ascii ''p'', ascii ''q'']
        (said (concat (map (\<lambda>a. [PromptPlayAgain, InvalidInput]) ?bad')) (table []))"
    using invalid_input_asks_again [of ?bad' 0 "[ascii ''p'', ascii ''q'']" "[]" "[]" no_games
        "table []"] v
    by blast
  moreover have "upper (ascii ''s'') = ascii ''S''" "upper (ascii ''s'') \<noteq> ascii ''H''"
    "upper (ascii ''p'') = ascii ''P''"
    by (simp_all add: upper_def upper_char_def ascii_def)
  ultimately show ?thesis
    by (simp add: said_def emit_def)
qed

text \<open>
  With H and S in either case as the only accepted tokens, the statement fails at the
  long s: it is none of H, h, S and s, and the player's turn ends with a stand, no
  rejection printed.
\<close>

theorem long_s_is_a_stand:
  "long_s \<notin> {ascii ''H'', ascii ''h'', ascii ''S'', ascii ''s''}
   \<and> player_turn 0 [long_s] [] [] no_games (table [])
       = Inr ([], [], False, no_games, said [PromptHitStand, Blank] (table []))"
  by (simp add: long_s_def ascii_def upper_def upper_char_def said_def emit_def)

text \<open>
  C4. The dealer's loop, from a deck and a hand of valid cards, returns; the cards
  \<open>drawn\<close> were appended to the hand one at a time, each drawn at a total below 17 (so no
  card is drawn at 17 or more, nor after a bust); the final total is at least 17; and
  when a drawn card took the total above 21, exactly \<open>dealer_busts\<close> and \<open>total_wins\<close>
  were incremented, once each. Otherwise the counters are unchanged.
\<close>

theorem dealer_draws_below_17:
  assumes "list_all valid_card (heap w cards)" and "list_all valid_card dh"
  shows "\<exists>drawn gs' w' t'.
           dealer_loop cards dh gs w = Inr (dh @ drawn, gs', w')
         \<and> (\<forall>n<length drawn.
               \<exists>t. calculate_hand (dh @ take n drawn) = Inr t \<and> t < 17)
         \<and> calculate_hand (dh @ drawn) = Inr t' \<and> 17 \<le> t'
         \<and> gs' = (if drawn \<noteq> [] \<and> 21 < t'
                   then gs\<lparr>dealer_busts := dealer_busts gs + 1, total_wins := total_wins gs + 1\<rparr>
                   else gs)
         \<and> (drawn = [] \<longrightarrow> w' = w)"
proof -
  from dealer_loop_run [OF assms, of gs] obtain drawn gs' w' t' where r:
    "dealer_loop cards dh gs w = Inr (dh @ drawn, gs', w')"
    "\<forall>n<length drawn. \<exists>t. calculate_hand (dh @ take n drawn) = Inr t \<and> t < 17"
    "calculate_hand (dh @ drawn) = Inr t'" "17 \<le> t'"
    "gs' = (if drawn \<noteq> [] \<and> 21 < t' then dealer_bust_stats gs else gs)"
    "drawn = [] \<longrightarrow> w' = w" by blast
  show ?thesis
    apply (rule exI [of _ drawn], rule exI [of _ gs'], rule exI [of _ w'], rule exI [of _ t'])
    using r unfolding dealer_bust_stats_def apply simp
    done
qed

theorem dealer_draws_below_17_witness:
  "\<exists>w'. dealer_loop 0 [Card ''Spades'' ''6'', Card ''Hearts'' ''5''] no_games
       (table [Card ''Clubs'' ''K'', Card ''Clubs'' ''2'', Card ''Diamonds'' ''3''])
     = Inr ([Card ''Spades'' ''6'', Card ''Hearts'' ''5'', Card ''Diamonds'' ''3'', Card ''Clubs'' ''2'',
             Card ''Clubs'' ''K''],
            no_games\<lparr>dealer_busts := 1, total_wins := 1\<rparr>, w')"
proof -
  let ?dh = "[Card ''Spades'' ''6'', Card ''Hearts'' ''5'']"
  let ?w = "table [Card ''Clubs'' ''K'', Card ''Clubs'' ''2'', Card ''Diamonds'' ''3'']"
  have v: "list_all valid_card (heap ?w 0)" "list_all valid_card ?dh"
    by (simp_all add: table_def valid_card_def ranks_def)
  from dealer_draws_below_17 [OF v, of no_games] obtain drawn gs' w' t' where r:
    "dealer_loop 0 ?dh no_games ?w = Inr (?dh @ drawn, gs', w')"
    "calculate_hand (?dh @ drawn) = Inr t'"
    "gs' = (if drawn \<noteq> [] \<and> 21 < t'
            then no_games\<lparr>dealer_busts := dealer_busts no_games + 1,
                          total_wins := total_wins no_games + 1\<rparr>
            else no_games)" by blast
  have e: "\<exists>g w''. dealer_loop 0 ?dh no_games ?w =
      Inr (?dh @ [Card ''Diamonds'' ''3'', Card ''Clubs'' ''2'', Card ''Clubs'' ''K''], g, w'')"
    by (simp add: run_simps)
  with r(1) have d: "drawn = [Card ''Diamonds'' ''3'', Card ''Clubs'' ''2'', Card ''Clubs'' ''K'']"
    by auto
  have "calculate_hand (?dh @ drawn) = Inr 26" unfolding d by (simp add: run_simps)
  with r(2) have "t' = 26" by simp
  with r(3) d have "gs' = no_games\<lparr>dealer_busts := 1, total_wins := 1\<rparr>"
    by (simp add: no_games_def)
  with r(1) d show ?thesis by auto
qed

text \<open>
  C2. A round that completes, from a deck of valid cards, adds 1 to \<open>total_games\<close> and
  adds 1 to exactly one of \<open>total_wins\<close>, \<open>total_losses\<close> and \<open>total_ties\<close>, leaving the
  other two as they were. When the player's final total is above 21 it is the loss, and
  when the dealer's is, it is the win: the final comparison adds nothing to them. The
  deck holds valid cards again after the round, and the deck of \<open>main\<close> does from the
  start: in every run of \<open>main\<close>, whatever the inputs, the files and the generator, every
  completed round has this effect on the counters that the round before it left (the
  first on the counters loaded).
\<close>

theorem round_counts_one_outcome:
  "(list_all valid_card (heap w cards) \<and> play_round cards ins gs w = Inr r \<longrightarrow>
      total_games (game_stats r) = total_games gs + 1
    \<and> ((total_wins (game_stats r) = total_wins gs + 1
         \<and> total_losses (game_stats r) = total_losses gs
         \<and> total_ties (game_stats r) = total_ties gs)
       \<or> (total_wins (game_stats r) = total_wins gs
         \<and> total_losses (game_stats r) = total_losses gs + 1
         \<and> total_ties (game_stats r) = total_ties gs)
       \<or> (total_wins (game_stats r) = total_wins gs
         \<and> total_losses (game_stats r) = total_losses gs
         \<and> total_ties (game_stats r) = total_ties gs + 1))
    \<and> (\<forall>t. calculate_hand (player_hand r) = Inr t \<and> 21 < t \<longrightarrow>
           total_wins (game_stats r) = total_wins gs
         \<and> total_losses (game_stats r) = total_losses gs + 1
         \<and> total_ties (game_stats r) = total_ties gs)
    \<and> (\<forall>t. calculate_hand (dealer_hand r) = Inr t \<and> 21 < t \<longrightarrow>
           total_wins (game_stats r) = total_wins gs + 1
         \<and> total_losses (game_stats r) = total_losses gs
         \<and> total_ties (game_stats r) = total_ties gs)
    \<and> list_all valid_card (heap (world_after r) cards))
   \<and> rounds_from (load_game_stats w0) (fst (main ins0 w0))"
proof (intro conjI impI)
  show "rounds_from (load_game_stats w0) (fst (main ins0 w0))" by (rule main_rounds)
next
  assume a: "list_all valid_card (heap w cards) \<and> play_round cards ins gs w = Inr r"
  then have v: "list_all valid_card (heap w cards)"
    and run: "play_round cards ins gs w = Inr r" by simp_all
  let ?goal = "total_games (game_stats r) = total_games gs + 1
    \<and> ((total_wins (game_stats r) = total_wins gs + 1
         \<and> total_losses (game_stats r) = total_losses gs
         \<and> total_ties (game_stats r) = total_ties gs)
       \<or> (total_wins (game_stats r) = total_wins gs
         \<and> total_losses (game_stats r) = total_losses gs + 1
         \<and> total_ties (game_stats r) = total_ties gs)
       \<or> (total_wins (game_stats r) = total_wins gs
         \<and> total_losses (game_stats r) = total_losses gs
         \<and> total_ties (game_stats r) = total_ties gs + 1))
    \<and> (\<forall>t. calculate_hand (player_hand r) = Inr t \<and> 21 < t \<longrightarrow>
           total_wins (game_stats r) = total_wins gs
         \<and> total_losses (game_stats r) = total_losses gs + 1
         \<and> total_ties (game_stats r) = total_ties gs)
    \<and> (\<forall>t. calculate_hand (dealer_hand r) = Inr t \<and> 21 < t \<longrightarrow>
           total_wins (game_stats r) = total_wins gs + 1
         \<and> total_losses (game_stats r) = total_losses gs
         \<and> total_ties (game_stats r) = total_ties gs)
    \<and> list_all valid_card (heap (world_after r) cards)"
  have d: "list_all valid_card (heap (world_after r) cards)"
    using v run by (rule play_round_deck)
  have ?goal
  proof (cases "bust r")
    case True
    with play_round_run [OF v run] obtain d1 d2 t where b:
      "calculate_hand (player_hand r) = Inr t" "21 < t" "dealer_hand r = [d1, d2]"
      "game_stats r = player_bust_stats (started gs)"
      and i: "\<exists>p1 p2 w1. initial_deal 2 cards [] [] w = Inr ([p1, p2], [d1, d2], w1)"
      by auto
    from i initial_deal_two [OF v] have "valid_card d1" "valid_card d2" by auto
    then have "\<forall>t. calculate_hand (dealer_hand r) = Inr t \<longrightarrow> t \<le> 21"
      unfolding b(3) using two_cards_at_most_21 by blast
    then show ?thesis
      using b(4) d by (auto simp: player_bust_stats_def started_def)
  next
    case False
    with play_round_run [OF v run] obtain tp td :: int where n:
      "calculate_hand (player_hand r) = Inr tp" "tp \<le> 21"
      "calculate_hand (dealer_hand r) = Inr td"
      "game_stats r =
          (if 21 < td then dealer_bust_stats (started gs)
           else if tp = td then (started gs)\<lparr>total_ties := total_ties gs + 1\<rparr>
           else if td < tp then (started gs)\<lparr>total_wins := total_wins gs + 1\<rparr>
           else (started gs)\<lparr>total_losses := total_losses gs + 1\<rparr>)"
      by auto
    then show ?thesis
      using d by (simp add: dealer_bust_stats_def started_def)
  qed
  then show "total_games (game_stats r) = total_games gs + 1"
    and "(total_wins (game_stats r) = total_wins gs + 1
         \<and> total_losses (game_stats r) = total_losses gs
         \<and> total_ties (game_stats r) = total_ties gs)
       \<or> (total_wins (game_stats r) = total_wins gs
         \<and> total_losses (game_stats r) = total_losses gs + 1
         \<and> total_ties (game_stats r) = total_ties gs)
       \<or> (total_wins (game_stats r) = total_wins gs
         \<and> total_losses (game_stats r) = total_losses gs
         \<and> total_ties (game_stats r) = total_ties gs + 1)"
    and "\<forall>t. calculate_hand (player_hand r) = Inr t \<and> 21 < t \<longrightarrow>
           total_wins (game_stats r) = total_wins gs
         \<and> total_losses (game_stats r) = total_losses gs + 1
         \<and> total_ties (game_stats r) = total_ties gs"
    and "\<forall>t. calculate_hand (dealer_hand r) = Inr t \<and> 21 < t \<longrightarrow>
           total_wins (game_stats r) = total_wins gs + 1
         \<and> total_losses (game_stats r) = total_losses gs
         \<and> total_ties (game_stats r) = total_ties gs"
    and "list_all valid_card (heap (world_after r) cards)"
    by blast+
qed

theorem round_counts_one_outcome_witness:
  "\<exists>r. play_round 0 [ascii ''s''] no_games
         (table [Card ''Hearts'' ''9'', Card ''Clubs'' ''10'', Card ''Diamonds'' ''K'',
                 Card ''Hearts'' ''10'']) = Inr r
     \<and> total_games (game_stats r) = 1 \<and> total_wins (game_stats r) = 1
     \<and> total_losses (game_stats r) = 0 \<and> total_ties (game_stats r) = 0"
proof -
  let ?w = "table [Card ''Hearts'' ''9'', Card ''Clubs'' ''10'', Card ''Diamonds'' ''K'',
                 Card ''Hearts'' ''10'']"
  have v: "list_all valid_card (heap ?w 0)"
    by (simp add: table_def valid_card_def ranks_def)
  have "\<exists>r. play_round 0 [ascii ''s''] no_games ?w = Inr r \<and> total_wins (game_stats r) = 1"
    by (simp add: run_simps)
  then obtain r where run: "play_round 0 [ascii ''s''] no_games ?w = Inr r"
    and won: "total_wins (game_stats r) = 1" by blast
  from round_counts_one_outcome [of ?w 0 "[ascii ''s'']" no_games r] v run won
  have "total_games (game_stats r) = 1 \<and> total_losses (game_stats r) = 0
      \<and> total_ties (game_stats r) = 0"
    by (simp add: no_games_def)
  with run won show ?thesis by blast
qed

text \<open>
  C5. When a round completes with the player's total above 21, the flag \<open>bust\<close> is set;
  the counters are those at the start of the round with one more game, one more player
  bust and one more loss, and no other change; the dealer's hand is the two cards dealt
  at the start; and the world after the round is the world after the player's turn with
  the statistics saved: the dealer drew no card and nothing more was printed.
\<close>

theorem player_bust_ends_round:
  assumes "list_all valid_card (heap w cards)" and "play_round cards ins gs w = Inr r"
    and "calculate_hand (player_hand r) = Inr t" and "21 < t"
  shows "bust r
       \<and> game_stats r = gs\<lparr>total_games := total_games gs + 1,
                            player_busts := player_busts gs + 1,
                            total_losses := total_losses gs + 1\<rparr>
       \<and> (\<exists>p1 p2 d1 d2 w1 w2 w3.
             initial_deal 2 cards [] [] w = Inr ([p1, p2], [d1, d2], w1)
           \<and> first_hand [p1, p2] [d1, d2] w1 = Inr w2
           \<and> player_turn cards ins [p1, p2] [d1, d2] (gs\<lparr>total_games := total_games gs + 1\<rparr>) w2
               = Inr (inputs_left r, player_hand r, True, game_stats r, w3)
           \<and> dealer_hand r = [d1, d2]
           \<and> world_after r = save_game_stats (game_stats r) w3)"
proof -
  from play_round_run [OF assms(1,2)] obtain p1 p2 d1 d2 w1 w2 gs2 w3 where p:
    "initial_deal 2 cards [] [] w = Inr ([p1, p2], [d1, d2], w1)"
    "first_hand [p1, p2] [d1, d2] w1 = Inr w2"
    "player_turn cards ins [p1, p2] [d1, d2] (started gs) w2
        = Inr (inputs_left r, player_hand r, bust r, gs2, w3)"
    "if bust r then
          (\<exists>t. calculate_hand (player_hand r) = Inr t \<and> 21 < t)
        \<and> dealer_hand r = [d1, d2]
        \<and> game_stats r = player_bust_stats (started gs)
        \<and> world_after r = save_game_stats (game_stats r) w3
     else (\<exists>tp. calculate_hand (player_hand r) = Inr tp \<and> tp \<le> 21)"
    by (auto split: if_splits)
  have list_valid: "list_all valid_card (heap w2 cards)"
    using initial_deal_two [OF assms(1)] p(1) first_hand_total [of "[p1, p2]" "[d1, d2]" w1] p(2)
    by auto
  have b: "bust r" using p(4) assms(3,4) by (cases "bust r") auto
  with p(4) have q: "dealer_hand r = [d1, d2]" "game_stats r = player_bust_stats (started gs)"
    "world_after r = save_game_stats (game_stats r) w3" by simp_all
  have vc: "list_all valid_card [p1, p2]" "list_all valid_card [d1, d2]"
    using initial_deal_two [OF assms(1)] p(1) by auto
  from player_turn_run [OF list_valid vc _ p(3)] b have "gs2 = player_bust_stats (started gs)"
    by simp
  with q(2) have g: "gs2 = game_stats r" by simp
  have s: "game_stats r = gs\<lparr>total_games := total_games gs + 1,
                            player_busts := player_busts gs + 1,
                            total_losses := total_losses gs + 1\<rparr>"
    using q(2) by (simp add: player_bust_stats_def started_def)
  show ?thesis
    apply (intro conjI)
      apply (rule b)
     apply (rule s)
    apply (rule exI [of _ p1], rule exI [of _ p2], rule exI [of _ d1], rule exI [of _ d2],
        rule exI [of _ w1], rule exI [of _ w2], rule exI [of _ w3])
    using p(1,2,3) b q g apply (simp add: started_def)
    done
qed

theorem player_bust_ends_round_witness:
  "\<exists>r. play_round 0 [ascii ''H''] no_games
         (table [Card ''Hearts'' ''5'', Card ''Hearts'' ''7'', Card ''Clubs'' ''9'',
                 Card ''Diamonds'' ''8'', Card ''Hearts'' ''10'']) = Inr r
     \<and> calculate_hand (player_hand r) = Inr 24
     \<and> bust r
     \<and> game_stats r = no_games\<lparr>total_games := 1, player_busts := 1, total_losses := 1\<rparr>
     \<and> dealer_hand r = [Card ''Diamonds'' ''8'', Card ''Hearts'' ''7'']"
proof -
  let ?w = "table [Card ''Hearts'' ''5'', Card ''Hearts'' ''7'', Card ''Clubs'' ''9'',
                 Card ''Diamonds'' ''8'', Card ''Hearts'' ''10'']"
  have v: "list_all valid_card (heap ?w 0)"
    by (simp add: table_def valid_card_def ranks_def)
  have "\<exists>r. play_round 0 [ascii ''H''] no_games ?w = Inr r
      \<and> player_hand r = [Card ''Hearts'' ''10'', Card ''Clubs'' ''9'', Card ''Hearts'' ''5'']
      \<and> dealer_hand r = [Card ''Diamonds'' ''8'', Card ''Hearts'' ''7'']"
    by (simp add: run_simps)
  then obtain r where run: "play_round 0 [ascii ''H''] no_games ?w = Inr r"
    and ph: "player_hand r = [Card ''Hearts'' ''10'', Card ''Clubs'' ''9'', Card ''Hearts'' ''5'']"
    and dh: "dealer_hand r = [Card ''Diamonds'' ''8'', Card ''Hearts'' ''7'']" by blast
  have t: "calculate_hand (player_hand r) = Inr 24"
    unfolding ph by (simp add: run_simps)
  have "(21::int) < 24" by simp
  from player_bust_ends_round [OF v run t this]
  have "bust r" "game_stats r = no_games\<lparr>total_games := 1, player_busts := 1, total_losses := 1\<rparr>"
    by (simp_all add: no_games_def)
  with run t dh show ?thesis by blast
qed

end
